theory Spec2Isabelle
  imports Complex_Main "HOL-Library.Signed_Division"
begin

section \<open>pv: the status line of display.c\<close>

text \<open>
  A shallow embedding of \<^verbatim>\<open>src/pv/display.c\<close>.  Conventions of the model:
  \<^item> \<^verbatim>\<open>long double\<close> values are exact reals: rounding, infinities and NaN are not
    modelled;
  \<^item> \<^verbatim>\<open>int\<close>, \<^verbatim>\<open>long\<close> and \<^verbatim>\<open>long long\<close> values are mathematical
    integers; the inputs are taken in the range where the C arithmetic does not overflow;
    C's \<^verbatim>\<open>/\<close> and \<^verbatim>\<open>%\<close> on integers are \<open>sdiv\<close> and \<open>smod\<close>
    (they truncate towards zero);
  \<^item> a C string is a \<open>string\<close> without the terminating NUL; reading the byte at the
    position of the terminator gives \<open>CHR 0x00\<close>;
  \<^item> \<^verbatim>\<open>_("...")\<close> (gettext) is the identity, as in the C locale.
\<close>

subsection \<open>C library helpers\<close>

definition NUL :: char where
  "NUL = CHR 0x00"

text \<open>The byte at index \<open>i\<close> of a NUL-terminated string, for \<open>i\<close> up to the terminator.\<close>

definition c_byte :: "string \<Rightarrow> nat \<Rightarrow> char" where
  "c_byte s i = (if i < length s then s ! i else NUL)"

text \<open>\<^verbatim>\<open>strchr(s, c) - s\<close>: the index of the first \<open>c\<close> in \<open>s\<close>, if there is one.\<close>

definition strchr :: "string \<Rightarrow> char \<Rightarrow> nat option" where
  "strchr s c = (if c \<in> set s then Some (length (takeWhile (\<lambda>x. x \<noteq> c) s)) else None)"

definition isdigit :: "char \<Rightarrow> bool" where
  "isdigit c = (c \<in> set ''0123456789'')"

text \<open>\<^verbatim>\<open>c - '0'\<close> for a digit \<open>c\<close>.\<close>

definition digit_value :: "char \<Rightarrow> nat" where
  "digit_value c = length (takeWhile (\<lambda>x. x \<noteq> c) ''0123456789'')"

text \<open>\<^verbatim>\<open>(long) x\<close> for a \<^verbatim>\<open>long double\<close>: the fraction is discarded.\<close>

definition long_of_real :: "real \<Rightarrow> int" where
  "long_of_real x = (if 0 \<le> x then \<lfloor>x\<rfloor> else \<lceil>x\<rceil>)"

text \<open>The conversions \<^verbatim>\<open>%ld\<close>, \<^verbatim>\<open>%Nld\<close> and \<^verbatim>\<open>%0Nld\<close> of printf.\<close>

function string_of_nat :: "nat \<Rightarrow> string" where
  "string_of_nat n =
     (if n < 10 then [''0123456789'' ! n]
      else string_of_nat (n div 10) @ [''0123456789'' ! (n mod 10)])"
  by pat_completeness auto
termination
  by (relation "measure id") auto

declare string_of_nat.simps [simp del]

definition fmt_ld :: "int \<Rightarrow> string" where
  "fmt_ld n = (if n < 0 then ''-'' @ string_of_nat (nat (- n)) else string_of_nat (nat n))"

definition fmt_ld_width :: "nat \<Rightarrow> int \<Rightarrow> string" where
  "fmt_ld_width w n = replicate (w - length (fmt_ld n)) CHR '' '' @ fmt_ld n"

definition fmt_ld_zero :: "nat \<Rightarrow> int \<Rightarrow> string" where
  "fmt_ld_zero w n =
     (if n < 0 then ''-'' @ replicate (w - 1 - length (string_of_nat (nat (- n)))) CHR ''0''
                      @ string_of_nat (nat (- n))
      else replicate (w - length (string_of_nat (nat n))) CHR ''0'' @ string_of_nat (nat n))"

text \<open>
  Modelled from the spec: the bodies of \<^verbatim>\<open>pv_snprintf\<close> and \<^verbatim>\<open>pv_strlcat\<close> are not
  among the sources; they are modelled from their declarations in \<^verbatim>\<open>pv.h\<close>
  ("wrapper for snprintf", "append a string to a buffer, constraining the buffer to a
  particular size and ensuring termination").  \<open>snprintf size s\<close> is the content of a
  buffer of \<open>size\<close> bytes after the expansion \<open>s\<close> of the format has been written to it.
\<close>

definition snprintf :: "nat \<Rightarrow> string \<Rightarrow> string" where
  "snprintf bufsize s = take (bufsize - 1) s"

definition pv_strlcat :: "string \<Rightarrow> string \<Rightarrow> nat \<Rightarrow> string" where
  "pv_strlcat dst src bufsize = dst @ take (bufsize - 1 - length dst) src"

text \<open>\<^verbatim>\<open>strncat(dst, src, n)\<close> appends at most \<open>n\<close> bytes of \<open>src\<close>.\<close>

definition strncat :: "string \<Rightarrow> string \<Rightarrow> nat \<Rightarrow> string" where
  "strncat dst src n = dst @ take n src"

text \<open>
  The expansion of a format with exactly one \<^verbatim>\<open>%s\<close> (the formats that
  \<^verbatim>\<open>pv__sizestr\<close> is given).
\<close>

fun expand_s :: "string \<Rightarrow> string \<Rightarrow> string" where
  "expand_s [] a = []"
| "expand_s (c # cs) a =
     (if c = CHR ''%'' \<and> take 1 cs = ''s'' then a @ drop 1 cs else c # expand_s cs a)"

text \<open>
  What one call gets from the C library and the system, where the model does not compute
  it: whether \<^verbatim>\<open>malloc\<close> succeeds, the clock, \<^verbatim>\<open>localtime\<close> and \<^verbatim>\<open>strftime\<close>,
  the floating-point conversions of printf and \<^verbatim>\<open>isprint\<close>.
\<close>

record libc =
  malloc_ok :: bool
  time_now :: int
  localtime_ok :: "int \<Rightarrow> bool"
  strftime :: "nat \<Rightarrow> string \<Rightarrow> int \<Rightarrow> string"
  fmt_Lg :: "real \<Rightarrow> string"
  fmt_Lf :: "real \<Rightarrow> string"
  isprint :: "char \<Rightarrow> bool"

subsection \<open>pv__si_prefix\<close>

definition pfx_000 :: string where
  "pfx_000 = ''yzafpnum kMGTPEZY''"

definition pfx_024 :: string where
  "pfx_024 = ''yzafpnum KMGTPEZY''"

text \<open>
  The first loop of \<^verbatim>\<open>pv__si_prefix\<close>:
  \<^verbatim>\<open>while ((*value > cutoff) && (*(i += 1) != '\0')) { *value /= ratio; prefix[0] = *i; }\<close>
  The state is the value, the index \<open>i\<close> into the prefix table and \<^verbatim>\<open>prefix[0]\<close>.
  The index is advanced also by the test that ends the loop at the terminator.
\<close>

function si_up :: "real \<Rightarrow> real \<Rightarrow> string \<Rightarrow> real \<Rightarrow> nat \<Rightarrow> char \<Rightarrow> real \<times> nat \<times> char" where
  "si_up ratio cutoff pfx v i p =
     (if v > cutoff then
        (if c_byte pfx (i + 1) \<noteq> NUL
         then si_up ratio cutoff pfx (v / ratio) (i + 1) (c_byte pfx (i + 1))
         else (v, i + 1, p))
      else (v, i, p))"
  by pat_completeness auto
termination
  by (relation "measure (\<lambda>(ratio, cutoff, pfx, v, i, p). length pfx - i)")
    (auto simp: c_byte_def split: if_splits)

declare si_up.simps [simp del]

text \<open>
  The second loop:
  \<^verbatim>\<open>while ((*value < 1.0) && ((i -= 1) != (pfx - 1))) { *value *= ratio; prefix[0] = *i; }\<close>
  The test \<^verbatim>\<open>(i -= 1) != (pfx - 1)\<close> fails exactly when \<open>i\<close> was the start of the
  table, so the recursion is on the index.
\<close>

fun si_down :: "real \<Rightarrow> string \<Rightarrow> real \<Rightarrow> nat \<Rightarrow> char \<Rightarrow> real \<times> char" where
  "si_down ratio pfx v 0 p = (v, p)"
| "si_down ratio pfx v (Suc j) p =
     (if v < 1 then si_down ratio pfx (v * ratio) j (c_byte pfx j) else (v, p))"

text \<open>
  \<^verbatim>\<open>pv__si_prefix(&value, prefix, ratio, is_bytes)\<close>: the new value and the prefix string.
\<close>

definition pv__si_prefix :: "real \<Rightarrow> real \<Rightarrow> bool \<Rightarrow> real \<times> string" where
  "pv__si_prefix val ratio is_bytes =
     (let pfx = (if is_bytes then pfx_024 else pfx_000);
          pfx_middle = the (strchr pfx CHR '' '')
      in if val = 0 then (val, if is_bytes then ''  '' else '' '')
         else
           (let cutoff = ratio * 0.97;
                (v1, i1, p1) = si_up ratio cutoff pfx val pfx_middle CHR '' '';
                (v2, p2) = si_down ratio pfx v1 i1 p1
            in (v2, if is_bytes then [p2, if p2 = CHR '' '' then CHR '' '' else CHR ''i'']
                    else [p2])))"

text \<open>
  The prefix string that \<^verbatim>\<open>pv__si_prefix\<close> leaves for the entry \<open>i\<close> of the prefix
  table: the entry itself and, in bytes mode, a second space after the blank entry and an
  \<^verbatim>\<open>i\<close> after any other (lines 204, 209 and 217 to 220).
\<close>

definition si_unit :: "bool \<Rightarrow> nat \<Rightarrow> string" where
  "si_unit is_bytes i =
     (let c = (if is_bytes then pfx_024 else pfx_000) ! i
      in if is_bytes then [c, if c = CHR '' '' then CHR '' '' else CHR ''i''] else [c])"

subsection \<open>The state\<close>

text \<open>
  The sizes of the string buffers and of the format array are macros of
  \<^verbatim>\<open>pv-internal.h\<close>, which is not among the sources: they are parameters of the model.
\<close>

record sizes =
  PV_SIZEOF_STR_NAME :: nat
  PV_SIZEOF_STR_TRANSFERRED :: nat
  PV_SIZEOF_STR_BUFPERCENT :: nat
  PV_SIZEOF_STR_TIMER :: nat
  PV_SIZEOF_STR_RATE :: nat
  PV_SIZEOF_STR_AVERAGE_RATE :: nat
  PV_SIZEOF_STR_PROGRESS :: nat
  PV_SIZEOF_STR_ETA :: nat
  PV_SIZEOF_STR_FINETA :: nat
  PV_SIZEOF_LASTOUTPUT_BUFFER :: nat
  PV_FORMAT_ARRAY_MAX :: nat

text \<open>The bits of \<^verbatim>\<open>components_used\<close>; the mask is the set of the bits that are set.\<close>

datatype pv_display =
    PV_DISPLAY_PROGRESS | PV_DISPLAY_TIMER | PV_DISPLAY_ETA | PV_DISPLAY_FINETA
  | PV_DISPLAY_RATE | PV_DISPLAY_AVERAGERATE | PV_DISPLAY_BYTES | PV_DISPLAY_NAME
  | PV_DISPLAY_BUFPERCENT | PV_DISPLAY_OUTPUTBUF

text \<open>
  What the \<^verbatim>\<open>string\<close> pointer of a format segment points to: one of the
  \<^verbatim>\<open>state->str_*\<close> buffers, or a position in the format string.
\<close>

datatype strptr =
    Str_name | Str_transferred | Str_timer | Str_rate | Str_average_rate | Str_progress
  | Str_eta | Str_fineta | Str_lastoutput | Str_bufpercent | Formatstr nat

record format_seg =
  seg_string :: strptr
  seg_length :: int

record pvhistory =
  hist_elapsed_sec :: real
  hist_total_bytes :: int

text \<open>
  The fields of \<^verbatim>\<open>struct pvstate_s\<close> that display.c uses.  \<open>format\<close> holds the
  segments before the terminating entry (the one whose string is 0).  A pointer that may
  be NULL is an option.
\<close>

record pvstate =
  numeric :: bool
  linemode :: bool
  bits :: bool
  splice_used :: bool
  size_st :: int
  width :: nat
  name :: "string option"
  default_format :: string
  format_string :: "string option"
  exit_status :: int
  buffer_size :: int
  read_position :: int
  write_position :: int
  lastoutput_buffer :: string
  lastoutput_length :: nat
  initial_offset :: int
  percentage :: int
  prev_elapsed_sec :: real
  prev_rate :: real
  prev_trans :: real
  current_avg_rate :: real
  history :: "pvhistory list option"
  history_first :: nat
  history_last :: nat
  history_len :: nat
  history_interval :: real
  display_buffer :: "string option"
  display_buffer_size :: int
  prev_width :: int
  prev_length :: int
  components_used :: "pv_display set"
  format :: "format_seg list"
  str_name :: string
  str_transferred :: string
  str_bufpercent :: string
  str_timer :: string
  str_rate :: string
  str_average_rate :: string
  str_progress :: string
  str_lastoutput :: string
  str_eta :: string
  str_fineta :: string

definition formatstr_of :: "pvstate \<Rightarrow> string" where
  "formatstr_of st = (case format_string st of Some f \<Rightarrow> f | None \<Rightarrow> default_format st)"

text \<open>The C string that a segment's pointer points to.\<close>

fun deref :: "pvstate \<Rightarrow> strptr \<Rightarrow> string" where
  "deref st Str_name = str_name st"
| "deref st Str_transferred = str_transferred st"
| "deref st Str_timer = str_timer st"
| "deref st Str_rate = str_rate st"
| "deref st Str_average_rate = str_average_rate st"
| "deref st Str_progress = str_progress st"
| "deref st Str_eta = str_eta st"
| "deref st Str_fineta = str_fineta st"
| "deref st Str_lastoutput = str_lastoutput st"
| "deref st Str_bufpercent = str_bufpercent st"
| "deref st (Formatstr off) = drop off (formatstr_of st)"

subsection \<open>pv__calc_percentage, pv__calc_eta, bound_long\<close>

definition pv__calc_percentage :: "int \<Rightarrow> int \<Rightarrow> int" where
  "pv__calc_percentage so_far total_sz =
     (if total_sz < 1 then 0 else (so_far * 100) sdiv total_sz)"

definition pv__calc_eta :: "int \<Rightarrow> int \<Rightarrow> int \<Rightarrow> int" where
  "pv__calc_eta so_far total_sz rate =
     (if so_far < 1 \<or> 0 = rate then 0 else (total_sz - so_far) sdiv rate)"

definition bound_long :: "int \<Rightarrow> int \<Rightarrow> int \<Rightarrow> int" where
  "bound_long x lo hi = (if x < lo then lo else if x > hi then hi else x)"

subsection \<open>pv__sizestr\<close>

definition pv__sizestr ::
  "libc \<Rightarrow> nat \<Rightarrow> string \<Rightarrow> real \<Rightarrow> string \<Rightarrow> string \<Rightarrow> bool \<Rightarrow> string" where
  "pv__sizestr E bufsize fmt amount suffix_basic suffix_bytes is_bytes =
     (let suffix = (if is_bytes then suffix_bytes else suffix_basic);
          divider = (if is_bytes then 1024 else 1000);
          (display_amount, si_prefix) = pv__si_prefix amount divider is_bytes;
          display_amount = (if display_amount > 100000 then 100000 else display_amount);
          sizestr_buffer =
            (if display_amount > 99.9 then
               snprintf 256
                 (fmt_ld_width 4 (long_of_real display_amount) @ take 2 si_prefix @ take 16 suffix)
             else
               (let str_disp = snprintf 64 (fmt_Lg E display_amount)
                in snprintf 256 (str_disp @ take 2 si_prefix @ take 16 suffix)))
      in snprintf bufsize (expand_s fmt sizestr_buffer))"

subsection \<open>pv__format_init\<close>

text \<open>
  \<^verbatim>\<open>while (isdigit(formatstr[strpos])) { num = num * 10; num += formatstr[strpos] - '0'; strpos++; }\<close>
  \<open>num\<close> is an \<^verbatim>\<open>unsigned int\<close> and wraps.  The result is the number and the
  position of the first byte that is not a digit.
\<close>

function scan_num :: "string \<Rightarrow> nat \<Rightarrow> nat \<Rightarrow> nat \<times> nat" where
  "scan_num formatstr strpos num =
     (if strpos < length formatstr \<and> isdigit (formatstr ! strpos)
      then scan_num formatstr (strpos + 1)
             ((num * 10 mod 2 ^ 32 + digit_value (formatstr ! strpos)) mod 2 ^ 32)
      else (num, strpos))"
  by pat_completeness auto
termination
  by (relation "measure (\<lambda>(formatstr, strpos, num). length formatstr - strpos)") auto

declare scan_num.simps [simp del]

text \<open>
  The segment loop of \<^verbatim>\<open>pv__format_init\<close>:
  \<^verbatim>\<open>for (strpos = 0; formatstr[strpos] != 0 && segment < 99; strpos++, segment++)\<close>
  Every round writes \<^verbatim>\<open>state->format[segment]\<close>, so the segments written so far are
  \<open>format st\<close> and \<open>segment\<close> is their number.  The result is \<open>None\<close> when a round
  would read the format string beyond its terminator, or when the terminating entry would
  be written beyond the \<^verbatim>\<open>PV_FORMAT_ARRAY_MAX\<close> entries of the array.
\<close>

definition add_segment :: "strptr \<Rightarrow> int \<Rightarrow> pvstate \<Rightarrow> pvstate" where
  "add_segment p n st = st\<lparr>format := format st @ [\<lparr>seg_string = p, seg_length = n\<rparr>]\<rparr>"

definition use_component :: "pv_display \<Rightarrow> pvstate \<Rightarrow> pvstate" where
  "use_component c st = st\<lparr>components_used := insert c (components_used st)\<rparr>"

text \<open>One \<^verbatim>\<open>%\<close> directive: the switch, with the position of the byte it ends at.\<close>

definition format_directive :: "sizes \<Rightarrow> string \<Rightarrow> nat \<Rightarrow> pvstate \<Rightarrow> nat \<times> pvstate" where
  "format_directive K formatstr strpos0 st =
     (let (num, strpos) = scan_num formatstr (strpos0 + 1) 0;
          c = c_byte formatstr strpos
      in if c = CHR ''p'' then
           (strpos, use_component PV_DISPLAY_PROGRESS (add_segment Str_progress (- 1) st))
         else if c = CHR ''t'' then
           (strpos, use_component PV_DISPLAY_TIMER (add_segment Str_timer 0 st))
         else if c = CHR ''e'' then
           (strpos, use_component PV_DISPLAY_ETA (add_segment Str_eta 0 st))
         else if c = CHR ''I'' then
           (strpos, use_component PV_DISPLAY_FINETA (add_segment Str_fineta 0 st))
         else if c = CHR ''A'' then
           (let num = (if num > PV_SIZEOF_LASTOUTPUT_BUFFER K
                       then PV_SIZEOF_LASTOUTPUT_BUFFER K else num);
                num = (if num < 1 then 1 else num)
            in (strpos, use_component PV_DISPLAY_OUTPUTBUF
                          ((add_segment Str_lastoutput 0 st)\<lparr>lastoutput_length := num\<rparr>)))
         else if c = CHR ''r'' then
           (strpos, use_component PV_DISPLAY_RATE (add_segment Str_rate 0 st))
         else if c = CHR ''a'' then
           (strpos, use_component PV_DISPLAY_AVERAGERATE (add_segment Str_average_rate 0 st))
         else if c = CHR ''b'' then
           (strpos, use_component PV_DISPLAY_BYTES (add_segment Str_transferred 0 st))
         else if c = CHR ''T'' then
           (strpos, use_component PV_DISPLAY_BUFPERCENT (add_segment Str_bufpercent 0 st))
         else if c = CHR ''N'' then
           (strpos, use_component PV_DISPLAY_NAME
                      (add_segment Str_name (int (length (str_name st))) st))
         else if c = CHR ''%'' then
           (strpos, add_segment (Formatstr strpos) 1 st)
         else if c = NUL then
           (strpos - 1, add_segment (Formatstr (strpos - 1)) 1 st)
         else
           (strpos - 1 + 1, add_segment (Formatstr (strpos - 1)) 2 st))"

text \<open>A run of text up to the next \<^verbatim>\<open>%\<close> or the end of the string.\<close>

definition format_literal :: "string \<Rightarrow> nat \<Rightarrow> pvstate \<Rightarrow> nat \<times> pvstate" where
  "format_literal formatstr strpos st =
     (let foundlength =
            (case strchr (drop strpos formatstr) CHR ''%'' of
               None \<Rightarrow> length (drop strpos formatstr)
             | Some n \<Rightarrow> n)
      in (strpos + foundlength - 1, add_segment (Formatstr strpos) (int foundlength) st))"

text \<open>The bytes that the switch of \<open>format_directive\<close> has a case for.\<close>

definition known_directives :: string where
  "known_directives = ''pteIArabTN%''"

function format_loop :: "sizes \<Rightarrow> string \<Rightarrow> nat \<Rightarrow> nat \<Rightarrow> pvstate \<Rightarrow> pvstate option" where
  "format_loop K formatstr strpos segment st =
     (if strpos > length formatstr then None
      else if c_byte formatstr strpos \<noteq> NUL \<and> segment < 99 then
        (let (strpos', st') =
               (if CHR ''%'' = c_byte formatstr strpos
                then format_directive K formatstr strpos st
                else format_literal formatstr strpos st)
         in format_loop K formatstr (strpos' + 1) (segment + 1) st')
      else if segment < PV_FORMAT_ARRAY_MAX K then Some st else None)"
  by pat_completeness auto
termination
  by (relation "measure (\<lambda>(K, formatstr, strpos, segment, st). 99 - segment)") auto

declare format_loop.simps [simp del]

definition pv__format_init :: "sizes \<Rightarrow> pvstate \<Rightarrow> pvstate option" where
  "pv__format_init K st =
     (let st = st\<lparr>str_name := [], str_transferred := [], str_timer := [], str_rate := [],
                  str_average_rate := [], str_progress := [], str_eta := [], format := []\<rparr>;
          st = (case name st of
                  Some n \<Rightarrow>
                    st\<lparr>str_name :=
                         snprintf (PV_SIZEOF_STR_NAME K)
                           (replicate (9 - length (take 500 n)) CHR '' '' @ take 500 n @ '':'')\<rparr>
                | None \<Rightarrow> st);
          formatstr = formatstr_of st;
          st = st\<lparr>components_used := {}\<rparr>
      in format_loop K formatstr 0 0 st)"

subsection \<open>update_history_avg_rate\<close>

definition update_history_avg_rate :: "pvstate \<Rightarrow> int \<Rightarrow> real \<Rightarrow> real \<Rightarrow> pvstate" where
  "update_history_avg_rate st total_bytes elapsed_sec rate =
     (case history st of
        None \<Rightarrow> st
      | Some h \<Rightarrow>
          (let first = history_first st;
               last = history_last st;
               last_elapsed = hist_elapsed_sec (h ! last)
           in if last_elapsed > 0 \<and> elapsed_sec < last_elapsed + history_interval st then st
              else
                (let (first, last, st) =
                       (if last_elapsed > 0 then
                          (let len = history_len st;
                               last = (last + 1) mod len;
                               first = (if last = first then (first + 1) mod len else first)
                           in (first, last, st\<lparr>history_last := last, history_first := first\<rparr>))
                        else (first, last, st));
                     h = h[last := \<lparr>hist_elapsed_sec = elapsed_sec, hist_total_bytes = total_bytes\<rparr>];
                     st = st\<lparr>history := Some h\<rparr>
                 in if first = last then st\<lparr>current_avg_rate := rate\<rparr>
                    else
                      (let bytes = hist_total_bytes (h ! last) - hist_total_bytes (h ! first);
                           sec = hist_elapsed_sec (h ! last) - hist_elapsed_sec (h ! first)
                       in st\<lparr>current_avg_rate := real_of_int bytes / sec\<rparr>))))"

text \<open>
  The indices of the history stay inside the array of \<open>history_len\<close> entries; the C code
  relies on it (an index beyond the array, or a length of 0, is undefined behaviour).
\<close>

definition history_ok :: "pvstate \<Rightarrow> bool" where
  "history_ok st =
     (case history st of
        None \<Rightarrow> True
      | Some h \<Rightarrow> 0 < history_len st \<and> length h = history_len st
                  \<and> history_first st < history_len st \<and> history_last st < history_len st)"

text \<open>The number of samples that the history holds, from the oldest to the newest.\<close>

definition history_count :: "pvstate \<Rightarrow> nat" where
  "history_count st =
     (history_last st + history_len st - history_first st) mod history_len st + 1"

subsection \<open>pv__format: rates and percentage\<close>

text \<open>
  The rate over the time since the last update (lines 531 to 540): the local
  \<^verbatim>\<open>rate\<close> is stored in \<^verbatim>\<open>state->prev_rate\<close>.
\<close>

definition smooth_rate :: "pvstate \<Rightarrow> real \<Rightarrow> int \<Rightarrow> pvstate" where
  "smooth_rate st elapsed_sec bytes_since_last =
     (let time_since_last = elapsed_sec - prev_elapsed_sec st;
          (rate, st) =
            (if time_since_last \<le> 0.01 then
               (prev_rate st, st\<lparr>prev_trans := prev_trans st + real_of_int bytes_since_last\<rparr>)
             else
               ((real_of_int bytes_since_last + prev_trans st) / time_since_last,
                st\<lparr>prev_elapsed_sec := elapsed_sec, prev_trans := 0\<rparr>))
      in st\<lparr>prev_rate := rate\<rparr>)"

text \<open>
  The locals \<^verbatim>\<open>elapsed_sec\<close>, \<^verbatim>\<open>rate\<close> and \<^verbatim>\<open>average_rate\<close> after the
  recalculation for the final update (lines 544 to 558); \<open>st\<close> is the state after
  \<^verbatim>\<open>update_history_avg_rate\<close>.
\<close>

definition final_rates :: "pvstate \<Rightarrow> real \<Rightarrow> int \<Rightarrow> int \<Rightarrow> real \<times> real \<times> real" where
  "final_rates st elapsed_sec bytes_since_last total_bytes =
     (let rate = prev_rate st;
          average_rate = current_avg_rate st
      in if bytes_since_last < 0 then
           (let elapsed_sec = (if elapsed_sec < 0.000001 then 0.000001 else elapsed_sec);
                average_rate =
                  (real_of_int total_bytes - real_of_int (initial_offset st)) / elapsed_sec;
                rate = average_rate
            in (elapsed_sec, rate, average_rate))
         else (elapsed_sec, rate, average_rate))"

text \<open>
  Lines 531 to 558 together: the state, and the locals \<^verbatim>\<open>elapsed_sec\<close>,
  \<^verbatim>\<open>rate\<close> and \<^verbatim>\<open>average_rate\<close> that the rest of \<^verbatim>\<open>pv__format\<close> uses.
\<close>

definition update_rates :: "pvstate \<Rightarrow> real \<Rightarrow> int \<Rightarrow> int \<Rightarrow> pvstate \<times> real \<times> real \<times> real" where
  "update_rates st elapsed_sec bytes_since_last total_bytes =
     (let st = smooth_rate st elapsed_sec bytes_since_last;
          st = update_history_avg_rate st total_bytes elapsed_sec (prev_rate st)
      in (st, final_rates st elapsed_sec bytes_since_last total_bytes))"

text \<open>The percentage (lines 560 to 580).\<close>

definition step_percentage :: "pvstate \<Rightarrow> real \<Rightarrow> int \<Rightarrow> pvstate" where
  "step_percentage st rate total_bytes =
     (if size_st st \<le> 0 then
        (let st = (if rate > 0 then st\<lparr>percentage := percentage st + 2\<rparr> else st)
         in if percentage st > 199 then st\<lparr>percentage := 0\<rparr> else st)
      else if numeric st \<or> PV_DISPLAY_PROGRESS \<in> components_used st then
        st\<lparr>percentage := pv__calc_percentage total_bytes (size_st st)\<rparr>
      else st)"

subsection \<open>pv__format: the output buffer\<close>

text \<open>
  Lines 585 to 605; the flag tells whether there is a buffer afterwards (\<^verbatim>\<open>malloc\<close>
  did not fail).
\<close>

definition ensure_buffer :: "libc \<Rightarrow> pvstate \<Rightarrow> bool \<times> pvstate" where
  "ensure_buffer E st =
     (let st = (if display_buffer st \<noteq> None \<and> display_buffer_size st < int (width st * 2)
                then st\<lparr>display_buffer := None, display_buffer_size := 0\<rparr> else st)
      in if display_buffer st = None then
           (let st = st\<lparr>display_buffer_size := int (2 * width st) + 80\<rparr>;
                st = (case name st of
                        Some n \<Rightarrow> st\<lparr>display_buffer_size := display_buffer_size st + int (length n)\<rparr>
                      | None \<Rightarrow> st)
            in if malloc_ok E then (True, st\<lparr>display_buffer := Some []\<rparr>)
               else (False, st\<lparr>exit_status := or (exit_status st) 64\<rparr>))
         else (True, st))"

text \<open>The line of the numeric output mode (lines 615 to 639).\<close>

definition numeric_output :: "libc \<Rightarrow> pvstate \<Rightarrow> real \<Rightarrow> int \<Rightarrow> string" where
  "numeric_output E st elapsed_sec total_bytes =
     (let numericprefix =
            (if PV_DISPLAY_TIMER \<in> components_used st
             then snprintf 128 (fmt_Lf E elapsed_sec @ '' '') else []);
          bufsize = nat (display_buffer_size st)
      in if PV_DISPLAY_BYTES \<in> components_used st then
           (if bits st
            then snprintf bufsize (take 99 numericprefix @ fmt_ld (8 * total_bytes) @ [CHR 0x0A])
            else snprintf bufsize (take 99 numericprefix @ fmt_ld total_bytes @ [CHR 0x0A]))
         else snprintf bufsize (take 99 numericprefix @ fmt_ld (percentage st) @ [CHR 0x0A]))"

subsection \<open>pv__format: the fixed-size fields\<close>

definition transferred_str :: "libc \<Rightarrow> sizes \<Rightarrow> pvstate \<Rightarrow> int \<Rightarrow> string" where
  "transferred_str E K st total_bytes =
     (if PV_DISPLAY_BYTES \<in> components_used st then
        (if bits st \<and> \<not> linemode st
         then pv__sizestr E (PV_SIZEOF_STR_TRANSFERRED K) ''%s''
                (real_of_int total_bytes * 8) [] ''b'' True
         else pv__sizestr E (PV_SIZEOF_STR_TRANSFERRED K) ''%s''
                (real_of_int total_bytes) [] ''B'' (\<not> linemode st))
      else [])"

definition bufpercent_str :: "sizes \<Rightarrow> pvstate \<Rightarrow> string" where
  "bufpercent_str K st =
     (if PV_DISPLAY_BUFPERCENT \<in> components_used st then
        (let s = (if buffer_size st > 0
                  then snprintf (PV_SIZEOF_STR_BUFPERCENT K)
                         (''{'' @ fmt_ld_width 3
                            (pv__calc_percentage (read_position st - write_position st)
                               (buffer_size st)) @ ''%}'')
                  else [])
         in if splice_used st then snprintf (PV_SIZEOF_STR_BUFPERCENT K) ''{----}'' else s)
      else [])"

definition timer_str :: "sizes \<Rightarrow> pvstate \<Rightarrow> real \<Rightarrow> string" where
  "timer_str K st elapsed_sec =
     (if PV_DISPLAY_TIMER \<in> components_used st then
        (let elapsed_sec = (if elapsed_sec > 360000000 then 360000000 else elapsed_sec);
             t = long_of_real elapsed_sec
         in if elapsed_sec > 86400 then
              snprintf (PV_SIZEOF_STR_TIMER K)
                (fmt_ld (t sdiv 86400) @ '':'' @ fmt_ld_zero 2 ((t sdiv 3600) smod 24) @ '':''
                 @ fmt_ld_zero 2 ((t sdiv 60) smod 60) @ '':'' @ fmt_ld_zero 2 (t smod 60))
            else
              snprintf (PV_SIZEOF_STR_TIMER K)
                (fmt_ld (t sdiv 3600) @ '':'' @ fmt_ld_zero 2 ((t sdiv 60) smod 60) @ '':''
                 @ fmt_ld_zero 2 (t smod 60)))
      else [])"

definition rate_str :: "libc \<Rightarrow> sizes \<Rightarrow> pvstate \<Rightarrow> real \<Rightarrow> string" where
  "rate_str E K st rate =
     (if PV_DISPLAY_RATE \<in> components_used st then
        (if bits st \<and> \<not> linemode st
         then pv__sizestr E (PV_SIZEOF_STR_RATE K) ''[%s]'' (8 * rate) [] ''b/s'' True
         else pv__sizestr E (PV_SIZEOF_STR_RATE K) ''[%s]'' rate ''/s'' ''B/s'' (\<not> linemode st))
      else [])"

definition average_rate_str :: "libc \<Rightarrow> sizes \<Rightarrow> pvstate \<Rightarrow> real \<Rightarrow> string" where
  "average_rate_str E K st average_rate =
     (if PV_DISPLAY_AVERAGERATE \<in> components_used st then
        (if bits st \<and> \<not> linemode st
         then pv__sizestr E (PV_SIZEOF_STR_AVERAGE_RATE K) ''[%s]'' (8 * average_rate) []
                ''b/s'' True
         else pv__sizestr E (PV_SIZEOF_STR_AVERAGE_RATE K) ''[%s]'' average_rate ''/s''
                ''B/s'' (\<not> linemode st))
      else [])"

definition lastoutput_str :: "libc \<Rightarrow> pvstate \<Rightarrow> string" where
  "lastoutput_str E st =
     (if PV_DISPLAY_OUTPUTBUF \<in> components_used st then
        map (\<lambda>c. if isprint E c then c else CHR ''.'')
          (take (lastoutput_length st) (lastoutput_buffer st))
      else [])"

text \<open>
  \<^verbatim>\<open>for (i = 0; i < n && s[i] != '\0'; i++) s[i] = ' ';\<close>
\<close>

fun blank_out :: "nat \<Rightarrow> string \<Rightarrow> string" where
  "blank_out 0 s = s"
| "blank_out (Suc n) [] = []"
| "blank_out (Suc n) (c # cs) = CHR '' '' # blank_out n cs"

text \<open>The ETA in seconds, as both ETA fields compute it (lines 750 to 758).\<close>

definition eta_seconds :: "pvstate \<Rightarrow> int \<Rightarrow> int" where
  "eta_seconds st total_bytes =
     (let eta = pv__calc_eta (total_bytes - initial_offset st)
                  (size_st st - initial_offset st) (long_of_real (current_avg_rate st))
      in bound_long eta 0 360000000)"


text \<open>The string that \<^verbatim>\<open>snprintf\<close> writes to \<^verbatim>\<open>str_eta\<close> (lines 764 to 773).\<close>

definition eta_text :: "sizes \<Rightarrow> int \<Rightarrow> string" where
  "eta_text K eta =
     (if eta > 86400 then
        snprintf (PV_SIZEOF_STR_ETA K)
          (take 16 ''ETA'' @ '' '' @ fmt_ld (eta sdiv 86400) @ '':''
           @ fmt_ld_zero 2 ((eta sdiv 3600) smod 24) @ '':''
           @ fmt_ld_zero 2 ((eta sdiv 60) smod 60) @ '':'' @ fmt_ld_zero 2 (eta smod 60))
      else
        snprintf (PV_SIZEOF_STR_ETA K)
          (take 16 ''ETA'' @ '' '' @ fmt_ld (eta sdiv 3600) @ '':''
           @ fmt_ld_zero 2 ((eta sdiv 60) smod 60) @ '':'' @ fmt_ld_zero 2 (eta smod 60)))"

definition eta_str :: "sizes \<Rightarrow> pvstate \<Rightarrow> int \<Rightarrow> int \<Rightarrow> string" where
  "eta_str K st bytes_since_last total_bytes =
     (if PV_DISPLAY_ETA \<in> components_used st \<and> size_st st > 0 then
        (let eta = eta_seconds st total_bytes;
             s = eta_text K eta
         in if bytes_since_last < 0 then blank_out (PV_SIZEOF_STR_ETA K) s else s)
      else [])"

definition fineta_str :: "libc \<Rightarrow> sizes \<Rightarrow> pvstate \<Rightarrow> int \<Rightarrow> string" where
  "fineta_str E K st total_bytes =
     (if PV_DISPLAY_FINETA \<in> components_used st \<and> size_st st > 0 then
        (let now = time_now E;
             eta = eta_seconds st total_bytes;
             time_format = (if eta > 6 * 3600 then ''%Y-%m-%d %H:%M:%S'' else ''%H:%M:%S'');
             then_t = now + eta
         in if \<not> localtime_ok E then_t then blank_out (PV_SIZEOF_STR_FINETA K) []
            else
              (let s = snprintf (PV_SIZEOF_STR_FINETA K) (take 16 ''ETA'' @ '' '')
               in s @ strftime E (PV_SIZEOF_STR_FINETA K - 1 - length s) time_format then_t))
      else [])"

text \<open>Lines 648 to 843: every field string is emptied, then the fields in use are filled.\<close>

definition render_fields ::
  "libc \<Rightarrow> sizes \<Rightarrow> pvstate \<Rightarrow> real \<Rightarrow> int \<Rightarrow> int \<Rightarrow> real \<Rightarrow> real \<Rightarrow> pvstate" where
  "render_fields E K st elapsed_sec bytes_since_last total_bytes rate average_rate =
     st\<lparr>str_transferred := transferred_str E K st total_bytes,
        str_bufpercent := bufpercent_str K st,
        str_timer := timer_str K st elapsed_sec,
        str_rate := rate_str E K st rate,
        str_average_rate := average_rate_str E K st average_rate,
        str_progress := [],
        str_lastoutput := lastoutput_str E st,
        str_eta := eta_str K st bytes_since_last total_bytes,
        str_fineta := fineta_str E K st total_bytes\<rparr>"

subsection \<open>pv__format: the progress bar\<close>

text \<open>The size of the static portions of the format (lines 850 to 859).\<close>

definition static_size :: "pvstate \<Rightarrow> format_seg \<Rightarrow> int" where
  "static_size st seg =
     (if seg_length seg < 0 then 0
      else if seg_length seg > 0 then seg_length seg
      else int (length (deref st (seg_string seg))))"

definition static_portion :: "pvstate \<Rightarrow> int" where
  "static_portion st = fold (\<lambda>seg n. n + static_size st seg) (format st) 0"

text \<open>
  The bar for a known size (lines 887 to 899): \<open>available_width\<close> and the percentage are
  the clamped ones, \<open>pct\<close> is the percentage string.  A \<^verbatim>\<open>for\<close> loop over \<open>i\<close> is a
  fold over the values that \<open>i\<close> takes.
\<close>

definition known_size_bar :: "sizes \<Rightarrow> int \<Rightarrow> int \<Rightarrow> string \<Rightarrow> string" where
  "known_size_bar K available_width pc pct =
     (let n = PV_SIZEOF_STR_PROGRESS K;
          bound = (available_width * pc) sdiv 100 - 1;
          s = fold (\<lambda>i s. if int i < available_width then pv_strlcat s ''='' n else s)
                [0..<nat bound] ''['';
          i = (if 0 < bound then bound else 0);
          (s, i) = (if i < available_width then (pv_strlcat s ''>'' n, i + 1) else (s, i));
          s = fold (\<lambda>i s. pv_strlcat s '' '' n) [nat i..<nat available_width] s;
          s = pv_strlcat s ''] '' n
      in pv_strlcat s pct n)"

text \<open>The bar for an unknown size (lines 913 to 923).\<close>

definition unknown_size_bar :: "sizes \<Rightarrow> int \<Rightarrow> int \<Rightarrow> string" where
  "unknown_size_bar K available_width pc =
     (let n = PV_SIZEOF_STR_PROGRESS K;
          p = (if pc > 100 then 200 - pc else pc);
          bound = (available_width * p) sdiv 100;
          s = fold (\<lambda>i s. if int i < available_width then pv_strlcat s '' '' n else s)
                [0..<nat bound] ''['';
          i = (if 0 < bound then bound else 0);
          s = pv_strlcat s ''<=>'' n;
          s = fold (\<lambda>i s. pv_strlcat s '' '' n) [nat i..<nat available_width] s
      in pv_strlcat s '']'' n)"

text \<open>\<^verbatim>\<open>available_width\<close> after its two bounds checks.\<close>

definition clamp_width :: "sizes \<Rightarrow> int \<Rightarrow> int" where
  "clamp_width K available_width =
     (let available_width = (if available_width < 0 then 0 else available_width)
      in if available_width > int (PV_SIZEOF_STR_PROGRESS K) - 16
         then int (PV_SIZEOF_STR_PROGRESS K) - 16 else available_width)"

text \<open>The string \<^verbatim>\<open>pct\<close> of the known-size bar: \<^verbatim>\<open>"%2ld%%"\<close> in 16 bytes.\<close>

definition pct_str :: "int \<Rightarrow> string" where
  "pct_str pc = snprintf 16 (fmt_ld_width 2 pc @ ''%'')"

text \<open>Lines 866 to 931.\<close>

definition render_progress :: "sizes \<Rightarrow> pvstate \<Rightarrow> int \<Rightarrow> pvstate" where
  "render_progress K st static_portion_size =
     (if PV_DISPLAY_PROGRESS \<in> components_used st then
        (let st =
               (if size_st st > 0 then
                  (let st = (if percentage st < 0 then st\<lparr>percentage := 0\<rparr> else st);
                       st = (if percentage st > 100000 then st\<lparr>percentage := 100000\<rparr> else st);
                       pct = pct_str (percentage st);
                       available_width =
                         clamp_width K
                           (int (width st) - static_portion_size - int (length pct) - 3)
                   in st\<lparr>str_progress := known_size_bar K available_width (percentage st) pct\<rparr>)
                else
                  (let available_width =
                         clamp_width K (int (width st) - static_portion_size - 5)
                   in st\<lparr>str_progress := unknown_size_bar K available_width (percentage st)\<rparr>))
         in if int (length (str_progress st)) + static_portion_size > int (width st)
            then st\<lparr>str_progress := []\<rparr> else st)
      else st)"

text \<open>
  The bar as the specification words it, for comparison with \<open>known_size_bar\<close>:
  \<open>floor (available_width * percentage / 100)\<close> fill characters, one transition marker
  immediately after the fill, spaces for the remainder of the width, enclosed in brackets,
  with the percentage after the closing bracket.
\<close>

definition spec_known_size_bar :: "int \<Rightarrow> int \<Rightarrow> string \<Rightarrow> string" where
  "spec_known_size_bar available_width pc pct =
     (let fill = (available_width * pc) div 100
      in ''['' @ replicate (nat fill) CHR ''='' @ ''>''
         @ replicate (nat (available_width - fill - 1)) CHR '' '' @ ''] '' @ pct)"

subsection \<open>pv__format: the output line\<close>

text \<open>
  The loop that builds the output string (lines 939 to 962), from the segment it is at,
  with the buffer content and \<^verbatim>\<open>display_string_length\<close>.  Both \<^verbatim>\<open>break\<close>s leave
  the loop with the buffer as it is.
\<close>

fun assemble :: "pvstate \<Rightarrow> format_seg list \<Rightarrow> string \<Rightarrow> int \<Rightarrow> string" where
  "assemble st [] buf display_string_length = buf"
| "assemble st (seg # segs) buf display_string_length =
     (let segment_length =
            (if seg_length seg > 0 then seg_length seg
             else int (length (deref st (seg_string seg))))
      in if segment_length = 0 then assemble st segs buf display_string_length
         else
           (let segment_length =
                  (if segment_length + display_string_length > display_buffer_size st - 2
                   then display_buffer_size st - display_string_length - 2
                   else segment_length)
            in if segment_length < 1 then buf
               else if segment_length + display_string_length > int (width st) then buf
               else assemble st segs
                      (strncat buf (deref st (seg_string seg)) (nat segment_length))
                      (display_string_length + segment_length)))"

text \<open>The text that a segment puts on the line.\<close>

definition seg_text :: "pvstate \<Rightarrow> format_seg \<Rightarrow> string" where
  "seg_text st seg =
     (if seg_length seg > 0 then take (nat (seg_length seg)) (deref st (seg_string seg))
      else deref st (seg_string seg))"

text \<open>A segment of constant text lies inside the string that it points to.\<close>

definition seg_ok :: "pvstate \<Rightarrow> format_seg \<Rightarrow> bool" where
  "seg_ok st seg =
     (0 < seg_length seg \<longrightarrow> nat (seg_length seg) \<le> length (deref st (seg_string seg)))"

text \<open>
  What \<^verbatim>\<open>pv__format_init\<close> writes into a segment: constant text inside the format
  string, the name with its length, or one of the other fields with a length of 0 or -1.
\<close>

definition seg_compiled :: "string \<Rightarrow> string \<Rightarrow> format_seg \<Rightarrow> bool" where
  "seg_compiled formatstr nm seg =
     (case seg_string seg of
        Formatstr off \<Rightarrow> 0 < seg_length seg \<and> off + nat (seg_length seg) \<le> length formatstr
      | Str_name \<Rightarrow> seg_length seg = int (length nm)
      | _ \<Rightarrow> seg_length seg \<le> 0)"

text \<open>
  The line as the specification words it, for comparison with \<open>assemble\<close>: the texts of
  the segments are concatenated in their order; the first one that would overflow the
  capacity of the buffer or the terminal width ends the line, and nothing of it or of the
  segments after it is put on the line.
\<close>

fun spec_assemble :: "int \<Rightarrow> int \<Rightarrow> string list \<Rightarrow> string \<Rightarrow> string" where
  "spec_assemble capacity w [] line = line"
| "spec_assemble capacity w (t # ts) line =
     (if int (length line + length t) > capacity \<or> int (length line + length t) > w
      then line
      else spec_assemble capacity w ts (line @ t))"

text \<open>The segments that \<^verbatim>\<open>%e\<close> and \<^verbatim>\<open>%I\<close> compile to.\<close>

definition is_eta_segment :: "format_seg \<Rightarrow> bool" where
  "is_eta_segment seg =
     (seg_length seg = 0 \<and> (seg_string seg = Str_eta \<or> seg_string seg = Str_fineta))"

text \<open>
  The trailing spaces (lines 968 to 986): the new content of the buffer, and the state
  with \<^verbatim>\<open>prev_width\<close> and \<^verbatim>\<open>prev_length\<close> set.
\<close>

definition pad_output :: "pvstate \<Rightarrow> string \<Rightarrow> pvstate" where
  "pad_output st buf =
     (let output_length = int (length buf);
          (buf, output_length) =
            (if output_length < prev_length st \<and> int (width st) \<ge> prev_width st then
               (let spaces_to_add = prev_length st - output_length;
                    spaces_to_add = (if spaces_to_add > 15 then 15 else spaces_to_add);
                    spaces = replicate (nat spaces_to_add) CHR '' ''
                in (pv_strlcat buf spaces (nat (display_buffer_size st)),
                    output_length + spaces_to_add))
             else (buf, output_length))
      in st\<lparr>display_buffer := Some buf, prev_width := int (width st),
            prev_length := output_length\<rparr>)"

subsection \<open>pv__format\<close>

text \<open>
  The returned pointer (\<open>None\<close> is NULL, otherwise the content of the display buffer) and
  the state after the call.
\<close>

definition pv__format ::
  "libc \<Rightarrow> sizes \<Rightarrow> pvstate \<Rightarrow> real \<Rightarrow> int \<Rightarrow> int \<Rightarrow> string option \<times> pvstate" where
  "pv__format E K st elapsed_sec bytes_since_last total_bytes =
     (if total_bytes < 0 then (None, st\<lparr>display_buffer := None\<rparr>)
      else
        (let (st, elapsed_sec, rate, average_rate) =
               update_rates st elapsed_sec bytes_since_last total_bytes;
             st = step_percentage st rate total_bytes;
             (have_buffer, st) = ensure_buffer E st
         in if \<not> have_buffer then (None, st)
            else if numeric st then
              (let st = st\<lparr>display_buffer := Some (numeric_output E st elapsed_sec total_bytes)\<rparr>
               in (display_buffer st, st))
            else
              (let st = render_fields E K st elapsed_sec bytes_since_last total_bytes rate
                          average_rate;
                   st = render_progress K st (static_portion st);
                   st = pad_output st (assemble st (format st) [] 0)
               in (display_buffer st, st))))"

text \<open>
  Consecutive calls of \<^verbatim>\<open>pv__format\<close> on one state, each with what the library gives
  it and its arguments.
\<close>

fun pv__format_calls :: "sizes \<Rightarrow> pvstate \<Rightarrow> (libc \<times> real \<times> int \<times> int) list \<Rightarrow> pvstate" where
  "pv__format_calls K st [] = st"
| "pv__format_calls K st ((E, elapsed_sec, bytes_since_last, total_bytes) # calls) =
     pv__format_calls K
       (snd (pv__format E K st elapsed_sec bytes_since_last total_bytes)) calls"

text \<open>The local \<^verbatim>\<open>rate\<close> of one call, as the percentage and the rate field see it.\<close>

definition rate_of_call :: "pvstate \<Rightarrow> real \<Rightarrow> int \<Rightarrow> int \<Rightarrow> real" where
  "rate_of_call st elapsed_sec bytes_since_last total_bytes =
     fst (snd (snd (update_rates st elapsed_sec bytes_since_last total_bytes)))"

text \<open>Every call of the list renders (no release sentinel) with a rate above 0.\<close>

fun rates_positive :: "sizes \<Rightarrow> pvstate \<Rightarrow> (libc \<times> real \<times> int \<times> int) list \<Rightarrow> bool" where
  "rates_positive K st [] = True"
| "rates_positive K st ((E, elapsed_sec, bytes_since_last, total_bytes) # calls) =
     (0 \<le> total_bytes \<and> 0 < rate_of_call st elapsed_sec bytes_since_last total_bytes
      \<and> rates_positive K
            (snd (pv__format E K st elapsed_sec bytes_since_last total_bytes)) calls)"

text \<open>
  The output buffer, when there is one, was allocated by an earlier call, with at least
  80 bytes.
\<close>

definition buffer_ok :: "pvstate \<Rightarrow> bool" where
  "buffer_ok st = (display_buffer st \<noteq> None \<longrightarrow> 80 \<le> display_buffer_size st)"

subsection \<open>A concrete state\<close>

text \<open>
  Values for evaluating the model: buffer sizes, a library whose \<^verbatim>\<open>malloc\<close>
  succeeds, and the state before the first call, 80 columns wide, with a history of
  three entries.
\<close>

definition sizes0 :: sizes where
  "sizes0 = \<lparr>PV_SIZEOF_STR_NAME = 512, PV_SIZEOF_STR_TRANSFERRED = 128,
              PV_SIZEOF_STR_BUFPERCENT = 128, PV_SIZEOF_STR_TIMER = 128,
              PV_SIZEOF_STR_RATE = 128, PV_SIZEOF_STR_AVERAGE_RATE = 128,
              PV_SIZEOF_STR_PROGRESS = 1024, PV_SIZEOF_STR_ETA = 128,
              PV_SIZEOF_STR_FINETA = 128, PV_SIZEOF_LASTOUTPUT_BUFFER = 256,
              PV_FORMAT_ARRAY_MAX = 100\<rparr>"

definition libc0 :: libc where
  "libc0 = \<lparr>malloc_ok = True, time_now = 0, localtime_ok = (\<lambda>t. True),
             strftime = (\<lambda>n f t. take n ''00:00:00''), fmt_Lg = (\<lambda>x. ''0.00''),
             fmt_Lf = (\<lambda>x. ''0.0000''), isprint = (\<lambda>c. True)\<rparr>"

definition state0 :: pvstate where
  "state0 = \<lparr>numeric = False, linemode = False, bits = False, splice_used = False,
              size_st = 0, width = 80, name = None, default_format = ''%b %t %r %p %e'',
              format_string = None, exit_status = 0, buffer_size = 0, read_position = 0,
              write_position = 0, lastoutput_buffer = [], lastoutput_length = 0,
              initial_offset = 0, percentage = 0, prev_elapsed_sec = 0, prev_rate = 0,
              prev_trans = 0, current_avg_rate = 0,
              history = Some (replicate 3 \<lparr>hist_elapsed_sec = 0, hist_total_bytes = 0\<rparr>),
              history_first = 0, history_last = 0, history_len = 3, history_interval = 1,
              display_buffer = None, display_buffer_size = 0, prev_width = 0,
              prev_length = 0, components_used = {}, format = [], str_name = [],
              str_transferred = [], str_bufpercent = [], str_timer = [], str_rate = [],
              str_average_rate = [], str_progress = [], str_lastoutput = [], str_eta = [],
              str_fineta = []\<rparr>"

text \<open>The state after a first observation of the history, made at 0 seconds with the rate 7.\<close>

definition state_first :: pvstate where
  "state_first = update_history_avg_rate state0 100 0 7"

text \<open>The same state with one sample in the history, taken after 1 second.\<close>

definition state1 :: pvstate where
  "state1 = state0\<lparr>history := Some [\<lparr>hist_elapsed_sec = 1, hist_total_bytes = 500\<rparr>,
                                      \<lparr>hist_elapsed_sec = 0, hist_total_bytes = 0\<rparr>,
                                      \<lparr>hist_elapsed_sec = 0, hist_total_bytes = 0\<rparr>]\<rparr>"

text \<open>A state with a size of 1000 whose format is \<^verbatim>\<open>%e\<close>, as compiled.\<close>

definition state_eta :: pvstate where
  "state_eta = state0\<lparr>size_st := 1000, format_string := Some ''%e'',
                       components_used := {PV_DISPLAY_ETA},
                       format := [\<lparr>seg_string = Str_eta, seg_length = 0\<rparr>]\<rparr>"

text \<open>
  A state with a size of 1000, half done (50 percent), 30 columns wide, whose format is
  \<^verbatim>\<open>%p\<close>, as compiled.
\<close>

definition state_bar :: pvstate where
  "state_bar = state0\<lparr>size_st := 1000, width := 30, format_string := Some ''%p'',
                       percentage := 50, components_used := {PV_DISPLAY_PROGRESS},
                       format := [\<lparr>seg_string = Str_progress, seg_length = - 1\<rparr>]\<rparr>"

text \<open>
  A state whose previous line had 10 characters on 80 columns, now 100 columns wide, with
  the buffer that \<^verbatim>\<open>pv__format\<close> allocates for this width.
\<close>

definition state_wider :: pvstate where
  "state_wider = state0\<lparr>width := 100, display_buffer := Some [], display_buffer_size := 280,
                         prev_width := 80, prev_length := 10\<rparr>"

text \<open>
  A state 10 columns wide whose format is \<^verbatim>\<open>ab%tcd\<close>, as compiled, with the timer
  string of the first second.
\<close>

definition state_line :: pvstate where
  "state_line = state0\<lparr>width := 10, format_string := Some ''ab%tcd'',
                        display_buffer := Some [], display_buffer_size := 100,
                        components_used := {PV_DISPLAY_TIMER},
                        format := [\<lparr>seg_string = Formatstr 0, seg_length = 2\<rparr>,
                                   \<lparr>seg_string = Str_timer, seg_length = 0\<rparr>,
                                   \<lparr>seg_string = Formatstr 4, seg_length = 2\<rparr>],
                        str_timer := ''0:00:01''\<rparr>"

section \<open>Properties\<close>


subsection \<open>What each part of pv__format leaves unchanged\<close>

lemma smooth_rate_frame:
  "size_st (smooth_rate st e b) = size_st st"
  "percentage (smooth_rate st e b) = percentage st"
  "initial_offset (smooth_rate st e b) = initial_offset st"
  "components_used (smooth_rate st e b) = components_used st"
  "numeric (smooth_rate st e b) = numeric st"
  "bits (smooth_rate st e b) = bits st"
  "linemode (smooth_rate st e b) = linemode st"
  by (simp_all add: smooth_rate_def Let_def split: prod.splits)

lemma update_history_frame:
  "size_st (update_history_avg_rate st t e r) = size_st st"
  "percentage (update_history_avg_rate st t e r) = percentage st"
  "initial_offset (update_history_avg_rate st t e r) = initial_offset st"
  "components_used (update_history_avg_rate st t e r) = components_used st"
  "numeric (update_history_avg_rate st t e r) = numeric st"
  "bits (update_history_avg_rate st t e r) = bits st"
  "linemode (update_history_avg_rate st t e r) = linemode st"
  "prev_rate (update_history_avg_rate st t e r) = prev_rate st"
  "prev_trans (update_history_avg_rate st t e r) = prev_trans st"
  "prev_elapsed_sec (update_history_avg_rate st t e r) = prev_elapsed_sec st"
  by (simp_all add: update_history_avg_rate_def Let_def split: option.splits)

lemma update_rates_frame:
  "size_st (fst (update_rates st e b t)) = size_st st"
  "percentage (fst (update_rates st e b t)) = percentage st"
  "initial_offset (fst (update_rates st e b t)) = initial_offset st"
  "components_used (fst (update_rates st e b t)) = components_used st"
  "numeric (fst (update_rates st e b t)) = numeric st"
  "bits (fst (update_rates st e b t)) = bits st"
  "linemode (fst (update_rates st e b t)) = linemode st"
  "prev_rate (fst (update_rates st e b t)) = prev_rate (smooth_rate st e b)"
  "prev_trans (fst (update_rates st e b t)) = prev_trans (smooth_rate st e b)"
  "prev_elapsed_sec (fst (update_rates st e b t)) = prev_elapsed_sec (smooth_rate st e b)"
  by (simp_all add: update_rates_def Let_def update_history_frame smooth_rate_frame)

lemma step_percentage_frame:
  "size_st (step_percentage st r t) = size_st st"
  "initial_offset (step_percentage st r t) = initial_offset st"
  "components_used (step_percentage st r t) = components_used st"
  "numeric (step_percentage st r t) = numeric st"
  "bits (step_percentage st r t) = bits st"
  "linemode (step_percentage st r t) = linemode st"
  "prev_rate (step_percentage st r t) = prev_rate st"
  "prev_trans (step_percentage st r t) = prev_trans st"
  "prev_elapsed_sec (step_percentage st r t) = prev_elapsed_sec st"
  "current_avg_rate (step_percentage st r t) = current_avg_rate st"
  by (simp_all add: step_percentage_def Let_def)

lemma ensure_buffer_frame:
  "size_st (snd (ensure_buffer E st)) = size_st st"
  "percentage (snd (ensure_buffer E st)) = percentage st"
  "initial_offset (snd (ensure_buffer E st)) = initial_offset st"
  "components_used (snd (ensure_buffer E st)) = components_used st"
  "numeric (snd (ensure_buffer E st)) = numeric st"
  "bits (snd (ensure_buffer E st)) = bits st"
  "linemode (snd (ensure_buffer E st)) = linemode st"
  "prev_rate (snd (ensure_buffer E st)) = prev_rate st"
  "prev_trans (snd (ensure_buffer E st)) = prev_trans st"
  "prev_elapsed_sec (snd (ensure_buffer E st)) = prev_elapsed_sec st"
  "current_avg_rate (snd (ensure_buffer E st)) = current_avg_rate st"
  by (simp_all add: ensure_buffer_def Let_def split: option.splits)

lemma render_fields_frame:
  "size_st (render_fields E K st e b t r a) = size_st st"
  "percentage (render_fields E K st e b t r a) = percentage st"
  "components_used (render_fields E K st e b t r a) = components_used st"
  "prev_rate (render_fields E K st e b t r a) = prev_rate st"
  "prev_trans (render_fields E K st e b t r a) = prev_trans st"
  "prev_elapsed_sec (render_fields E K st e b t r a) = prev_elapsed_sec st"
  by (simp_all add: render_fields_def)

lemma render_progress_frame:
  "size_st (render_progress K st n) = size_st st"
  "components_used (render_progress K st n) = components_used st"
  "prev_rate (render_progress K st n) = prev_rate st"
  "prev_trans (render_progress K st n) = prev_trans st"
  "prev_elapsed_sec (render_progress K st n) = prev_elapsed_sec st"
  "str_rate (render_progress K st n) = str_rate st"
  "str_average_rate (render_progress K st n) = str_average_rate st"
  "str_eta (render_progress K st n) = str_eta st"
  "str_fineta (render_progress K st n) = str_fineta st"
  by (simp_all add: render_progress_def Let_def)

lemma render_progress_percentage:
  "size_st st \<le> 0 \<Longrightarrow> percentage (render_progress K st n) = percentage st"
  by (simp add: render_progress_def Let_def)

lemma pad_output_frame:
  "size_st (pad_output st buf) = size_st st"
  "percentage (pad_output st buf) = percentage st"
  "components_used (pad_output st buf) = components_used st"
  "prev_rate (pad_output st buf) = prev_rate st"
  "prev_trans (pad_output st buf) = prev_trans st"
  "prev_elapsed_sec (pad_output st buf) = prev_elapsed_sec st"
  "str_rate (pad_output st buf) = str_rate st"
  "str_average_rate (pad_output st buf) = str_average_rate st"
  "str_eta (pad_output st buf) = str_eta st"
  "str_fineta (pad_output st buf) = str_fineta st"
  by (simp_all add: pad_output_def Let_def split: prod.splits)

lemmas frames = update_rates_frame step_percentage_frame ensure_buffer_frame
  render_fields_frame render_progress_frame pad_output_frame

lemma pv__format_prev:
  assumes "0 \<le> t"
  shows "prev_rate (snd (pv__format E K st e b t)) = prev_rate (smooth_rate st e b)"
    and "prev_trans (snd (pv__format E K st e b t)) = prev_trans (smooth_rate st e b)"
    and "prev_elapsed_sec (snd (pv__format E K st e b t)) = prev_elapsed_sec (smooth_rate st e b)"
  using assms
  by (simp_all add: pv__format_def Let_def split_beta frames)


lemma smooth_rate_cases:
  "prev_rate (smooth_rate st e b) =
     (if e - prev_elapsed_sec st \<le> 0.01 then prev_rate st
      else (real_of_int b + prev_trans st) / (e - prev_elapsed_sec st))"
  "prev_trans (smooth_rate st e b) =
     (if e - prev_elapsed_sec st \<le> 0.01 then prev_trans st + real_of_int b else 0)"
  "prev_elapsed_sec (smooth_rate st e b) =
     (if e - prev_elapsed_sec st \<le> 0.01 then prev_elapsed_sec st else e)"
  by (simp_all add: smooth_rate_def Let_def)

lemma rate_of_call_eq:
  "rate_of_call st e b t =
     (if b < 0 then (real_of_int t - real_of_int (initial_offset st)) / max e 0.000001
      else prev_rate (smooth_rate st e b))"
  by (simp add: rate_of_call_def update_rates_def final_rates_def Let_def
      update_history_frame smooth_rate_frame max_def)

lemma final_rates_final:
  "b < 0 \<Longrightarrow>
   snd (snd (update_rates st e b t)) =
     ((real_of_int t - real_of_int (initial_offset st)) / max e 0.000001,
      (real_of_int t - real_of_int (initial_offset st)) / max e 0.000001)"
  by (simp add: update_rates_def final_rates_def Let_def
      update_history_frame smooth_rate_frame max_def)

lemma rate_str_cong:
  "components_used st' = components_used st \<Longrightarrow> bits st' = bits st \<Longrightarrow>
   linemode st' = linemode st \<Longrightarrow>
   rate_str E K st' r = rate_str E K st r \<and> average_rate_str E K st' r = average_rate_str E K st r"
  by (simp add: rate_str_def average_rate_str_def)

lemma pv__format_None:
  "0 \<le> t \<Longrightarrow> fst (pv__format E K st e b t) \<noteq> None \<Longrightarrow>
   fst (ensure_buffer E (step_percentage (fst (update_rates st e b t))
          (fst (snd (snd (update_rates st e b t)))) t))"
  by (auto simp: pv__format_def Let_def split_beta split: if_splits)

lemma pv__format_str_rate:
  assumes "0 \<le> t" "\<not> numeric st" "fst (pv__format E K st e b t) \<noteq> None"
  shows "str_rate (snd (pv__format E K st e b t)) = rate_str E K st (rate_of_call st e b t)"
    and "str_average_rate (snd (pv__format E K st e b t)) =
           average_rate_str E K st (snd (snd (snd (update_rates st e b t))))"
proof -
  let ?u = "update_rates st e b t"
  let ?st3 = "snd (ensure_buffer E (step_percentage (fst ?u) (fst (snd (snd ?u))) t))"
  have c: "components_used ?st3 = components_used st" "bits ?st3 = bits st"
    "linemode ?st3 = linemode st" "numeric ?st3 = numeric st"
    by (simp_all add: frames)
  have ok: "fst (ensure_buffer E (step_percentage (fst ?u) (fst (snd (snd ?u))) t))"
    using pv__format_None [OF assms(1,3)] .
  have "str_rate (snd (pv__format E K st e b t)) = rate_str E K ?st3 (fst (snd (snd ?u)))"
    using assms(1,2) ok c(4)
    by (simp add: pv__format_def Let_def split_beta frames) (simp add: render_fields_def)
  then show "str_rate (snd (pv__format E K st e b t)) = rate_str E K st (rate_of_call st e b t)"
    using rate_str_cong [OF c(1,2,3)] by (simp add: rate_of_call_def)
  have "str_average_rate (snd (pv__format E K st e b t)) =
          average_rate_str E K ?st3 (snd (snd (snd ?u)))"
    using assms(1,2) ok c(4)
    by (simp add: pv__format_def Let_def split_beta frames) (simp add: render_fields_def)
  then show "str_average_rate (snd (pv__format E K st e b t)) =
           average_rate_str E K st (snd (snd (snd (update_rates st e b t))))"
    using rate_str_cong [OF c(1,2,3)] by simp
qed

subsection \<open>The rate\<close>

text \<open>
  C1.  A call that renders (\<open>total_bytes\<close> is not the release sentinel) and is not the
  final update: when no more than 0.01 seconds have passed since \<open>prev_elapsed_sec\<close>, the
  rate is the previous rate, \<open>prev_trans\<close> grows by \<open>bytes_since_last\<close> and
  \<open>prev_elapsed_sec\<close> stays; otherwise the rate is
  \<open>(prev_trans + bytes_since_last) / (elapsed_sec - prev_elapsed_sec)\<close>, \<open>prev_trans\<close>
  becomes 0 and \<open>prev_elapsed_sec\<close> becomes \<open>elapsed_sec\<close>.  On the final update the
  rate and the average rate are both
  \<open>(total_bytes - initial_offset) / max elapsed_sec 0.000001\<close>, and the rate fields of a
  line that is returned are formatted from this value.
\<close>

theorem pv__format_rate_smoothing:
  assumes "0 \<le> total_bytes"
  shows
    "let st' = snd (pv__format E K st elapsed_sec bytes_since_last total_bytes);
         whole = (real_of_int total_bytes - real_of_int (initial_offset st))
                   / max elapsed_sec 0.000001
     in (0 \<le> bytes_since_last \<longrightarrow>
           rate_of_call st elapsed_sec bytes_since_last total_bytes = prev_rate st'
           \<and> (if elapsed_sec - prev_elapsed_sec st \<le> 0.01
               then prev_rate st' = prev_rate st
                    \<and> prev_trans st' = prev_trans st + real_of_int bytes_since_last
                    \<and> prev_elapsed_sec st' = prev_elapsed_sec st
               else prev_rate st' =
                      (prev_trans st + real_of_int bytes_since_last)
                        / (elapsed_sec - prev_elapsed_sec st)
                    \<and> prev_trans st' = 0
                    \<and> prev_elapsed_sec st' = elapsed_sec))
        \<and> (bytes_since_last < 0 \<longrightarrow>
              snd (snd (update_rates st elapsed_sec bytes_since_last total_bytes))
                = (whole, whole)
              \<and> (\<not> numeric st
                   \<and> fst (pv__format E K st elapsed_sec bytes_since_last total_bytes) \<noteq> None
                   \<longrightarrow> str_rate st' = rate_str E K st whole
                       \<and> str_average_rate st' = average_rate_str E K st whole))"
proof -
  let ?st' = "snd (pv__format E K st elapsed_sec bytes_since_last total_bytes)"
  let ?whole = "(real_of_int total_bytes - real_of_int (initial_offset st))
                   / max elapsed_sec 0.000001"
  have a: "0 \<le> bytes_since_last \<Longrightarrow>
        rate_of_call st elapsed_sec bytes_since_last total_bytes = prev_rate ?st'"
    by (simp add: rate_of_call_eq pv__format_prev [OF assms])
  have b: "if elapsed_sec - prev_elapsed_sec st \<le> 0.01
               then prev_rate ?st' = prev_rate st
                    \<and> prev_trans ?st' = prev_trans st + real_of_int bytes_since_last
                    \<and> prev_elapsed_sec ?st' = prev_elapsed_sec st
               else prev_rate ?st' =
                      (prev_trans st + real_of_int bytes_since_last)
                        / (elapsed_sec - prev_elapsed_sec st)
                    \<and> prev_trans ?st' = 0
                    \<and> prev_elapsed_sec ?st' = elapsed_sec"
    by (simp add: pv__format_prev [OF assms] smooth_rate_cases add.commute)
  have c: "bytes_since_last < 0 \<Longrightarrow>
       snd (snd (update_rates st elapsed_sec bytes_since_last total_bytes)) = (?whole, ?whole)"
    by (rule final_rates_final)
  have d: "bytes_since_last < 0 \<Longrightarrow> \<not> numeric st \<Longrightarrow>
       fst (pv__format E K st elapsed_sec bytes_since_last total_bytes) \<noteq> None \<Longrightarrow>
       str_rate ?st' = rate_str E K st ?whole \<and> str_average_rate ?st' = average_rate_str E K st ?whole"
    using pv__format_str_rate [OF assms, of st E K elapsed_sec bytes_since_last]
    by (simp add: rate_of_call_eq final_rates_final)
  show ?thesis
    unfolding Let_def using a b c d by blast
qed




theorem pv__format_rate_smoothing_witness:
  "prev_rate (snd (pv__format libc0 sizes0 state0 1 500 500)) = 500
   \<and> prev_trans (snd (pv__format libc0 sizes0 state0 1 500 500)) = 0
   \<and> prev_elapsed_sec (snd (pv__format libc0 sizes0 state0 1 500 500)) = 1
   \<and> snd (snd (update_rates state0 2 (- 1) 1000)) = (500, 500)"
  using pv__format_rate_smoothing [of 500 libc0 sizes0 state0 1 500]
    pv__format_rate_smoothing [of 1000 libc0 sizes0 state0 2 "- 1"]
  by (simp add: Let_def state0_def)

subsection \<open>The window of the average rate\<close>

lemma ring_mod_ge:
  fixes f l L :: nat
  assumes "f \<le> l" "l < L"
  shows "(l + L - f) mod L = l - f"
proof -
  have "l + L - f = (l - f) + L" using assms by arith
  then have "(l + L - f) mod L = ((l - f) + L) mod L" by (rule arg_cong)
  also have "\<dots> = (l - f) mod L" by (rule mod_add_self2)
  also have "\<dots> = l - f" using assms by (intro mod_less) arith
  finally show ?thesis .
qed

lemma ring_mod_lt:
  fixes f l L :: nat
  assumes "l < f" "f < L"
  shows "(l + L - f) mod L = l + L - f"
  using assms by (intro mod_less) arith

lemma ring_count_one:
  fixes f l L :: nat
  assumes "f < L" "l < L"
  shows "((l + L - f) mod L + 1 = 1) = (f = l)"
proof (cases "f \<le> l")
  case True
  show ?thesis unfolding ring_mod_ge [OF True assms(2)] using True by arith
next
  case False
  then have lt: "l < f" by simp
  show ?thesis unfolding ring_mod_lt [OF lt assms(1)] using lt assms by arith
qed


lemma ring_succ_mod:
  fixes l L :: nat
  assumes "l < L"
  shows "(l + 1) mod L = (if l + 1 = L then 0 else l + 1)"
proof (cases "l + 1 = L")
  case True
  then show ?thesis by simp
next
  case False
  then have "l + 1 < L" using assms by arith
  then have "(l + 1) mod L = l + 1" by (rule mod_less)
  then show ?thesis using False by simp
qed

lemma ring_count_full:
  fixes f l L :: nat
  assumes "f < L" "l < L"
  shows "((l + L - f) mod L + 1 = L) = ((l + 1) mod L = f)"
proof (cases "f \<le> l")
  case True
  show ?thesis
    unfolding ring_mod_ge [OF True assms(2)] ring_succ_mod [OF assms(2)]
    using True assms by (cases "l + 1 = L") (simp_all, arith+)
next
  case False
  then have lt: "l < f" by simp
  show ?thesis
    unfolding ring_mod_lt [OF lt assms(1)] ring_succ_mod [OF assms(2)]
    using lt assms by (cases "l + 1 = L") (simp_all, arith+)
qed


lemma ring_count_step:
  fixes f l L :: nat
  assumes "f < L" "l < L" "(l + 1) mod L \<noteq> f"
  shows "((l + 1) mod L + L - f) mod L + 1 = ((l + L - f) mod L + 1) + 1"
proof (cases "l + 1 = L")
  case True
  then have l': "(l + 1) mod L = 0" by simp
  have f0: "0 < f" using assms(3) l' by auto
  have fl: "f \<le> l" using assms(1) True by arith
  have "(0 + L - f) mod L = 0 + L - f" using f0 assms(1) by (rule ring_mod_lt)
  moreover have "(l + L - f) mod L = l - f" using fl assms(2) by (rule ring_mod_ge)
  ultimately show ?thesis unfolding l' using True fl assms(1) by simp
next
  case False
  then have lt: "l + 1 < L" using assms(2) by arith
  then have l': "(l + 1) mod L = l + 1" by (rule mod_less)
  have ne: "f \<noteq> l + 1" using assms(3) l' by simp
  show ?thesis
  proof (cases "f \<le> l")
    case True
    then have "f \<le> l + 1" by simp
    then have "(l + 1 + L - f) mod L = l + 1 - f" using lt by (rule ring_mod_ge)
    moreover have "(l + L - f) mod L = l - f" using True assms(2) by (rule ring_mod_ge)
    ultimately show ?thesis unfolding l' using True by simp
  next
    case False
    then have "l + 1 < f" using ne by arith
    then have "(l + 1 + L - f) mod L = l + 1 + L - f" using assms(1) by (rule ring_mod_lt)
    moreover have "l < f" using False by simp
    then have "(l + L - f) mod L = l + L - f" using assms(1) by (rule ring_mod_lt)
    ultimately show ?thesis unfolding l' using False assms(1) by simp
  qed
qed

lemma ring_count_evict:
  fixes f L :: nat
  assumes "f < L"
  shows "(f + L - (f + 1) mod L) mod L + 1 = L"
proof (cases "f + 1 = L")
  case True
  then have l': "(f + 1) mod L = 0" by simp
  have "(f + L - 0) mod L = f - 0" using assms by (intro ring_mod_ge) simp_all
  then show ?thesis unfolding l' using True by simp
next
  case False
  then have lt: "f + 1 < L" using assms by arith
  then have l': "(f + 1) mod L = f + 1" by (rule mod_less)
  have "f < f + 1" by simp
  then have "(f + L - (f + 1)) mod L = f + L - (f + 1)" using lt by (rule ring_mod_lt)
  then show ?thesis unfolding l' using assms by simp
qed


lemma update_history_keep:
  assumes "history st = Some h" "0 < hist_elapsed_sec (h ! history_last st)"
    "elapsed_sec < hist_elapsed_sec (h ! history_last st) + history_interval st"
  shows "update_history_avg_rate st total_bytes elapsed_sec rate = st"
  using assms by (simp add: update_history_avg_rate_def Let_def)

lemma update_history_append:
  assumes "history st = Some h" "0 < hist_elapsed_sec (h ! history_last st)"
    "hist_elapsed_sec (h ! history_last st) + history_interval st \<le> elapsed_sec"
  shows "update_history_avg_rate st total_bytes elapsed_sec rate =
          (let l' = (history_last st + 1) mod history_len st;
               f' = (if l' = history_first st then (history_first st + 1) mod history_len st
                     else history_first st);
               h' = h[l' := \<lparr>hist_elapsed_sec = elapsed_sec, hist_total_bytes = total_bytes\<rparr>]
           in st\<lparr>history_last := l', history_first := f', history := Some h',
                 current_avg_rate :=
                   (if f' = l' then rate
                    else real_of_int (hist_total_bytes (h' ! l') - hist_total_bytes (h' ! f'))
                           / (hist_elapsed_sec (h' ! l') - hist_elapsed_sec (h' ! f')))\<rparr>)"
  using assms by (simp add: update_history_avg_rate_def Let_def)

lemma update_history_overwrite:
  assumes "history st = Some h" "hist_elapsed_sec (h ! history_last st) \<le> 0"
  shows "update_history_avg_rate st total_bytes elapsed_sec rate =
          (let l = history_last st; f = history_first st;
               h' = h[l := \<lparr>hist_elapsed_sec = elapsed_sec, hist_total_bytes = total_bytes\<rparr>]
           in st\<lparr>history := Some h',
                 current_avg_rate :=
                   (if f = l then rate
                    else real_of_int (hist_total_bytes (h' ! l) - hist_total_bytes (h' ! f))
                           / (hist_elapsed_sec (h' ! l) - hist_elapsed_sec (h' ! f)))\<rparr>)"
  using assms by (simp add: update_history_avg_rate_def Let_def)

text \<open>
  C2, as the code has it.  The code takes the newest stored sample to be a real one when
  its time is above 0.  Then a sample is appended only when \<open>elapsed_sec\<close> is at least
  the time of the newest sample plus \<open>history_interval\<close>, and otherwise the state, with the
  average, stays as it is; when a sample is appended, \<open>history_last\<close> advances around
  the array, and when the history is full \<open>history_first\<close> advances too, dropping the
  oldest sample, and otherwise the count grows by one.  While the time of the newest sample
  is not above 0 (nothing was observed yet, or only at 0 seconds), the observation is
  written over that sample, without appending, whatever \<open>elapsed_sec\<close> is.  Whenever a
  sample is stored, appended or written over, the average is set: to the rate passed in
  when one sample is stored, and with two or more to the difference of the amounts of the
  newest and the oldest sample over the difference of their times.  Nothing but the two
  indices, the stored sample and the average changes.
\<close>

theorem update_history_avg_rate_window:
  assumes "history st = Some h" and "history_ok st"
  shows
    "let st' = update_history_avg_rate st total_bytes elapsed_sec rate;
         last_elapsed = hist_elapsed_sec (h ! history_last st);
         kept = (0 < last_elapsed \<and> elapsed_sec < last_elapsed + history_interval st);
         full = (history_count st = history_len st);
         sample = \<lparr>hist_elapsed_sec = elapsed_sec, hist_total_bytes = total_bytes\<rparr>;
         oldest = the (history st') ! history_first st'
     in (kept \<longrightarrow> st' = st)
        \<and> (0 < last_elapsed \<and> last_elapsed + history_interval st \<le> elapsed_sec \<longrightarrow>
             history_last st' = (history_last st + 1) mod history_len st
             \<and> history_first st' =
                 (if full then (history_first st + 1) mod history_len st else history_first st)
             \<and> history_count st' = (if full then history_len st else history_count st + 1))
        \<and> (last_elapsed \<le> 0 \<longrightarrow>
             history_last st' = history_last st \<and> history_first st' = history_first st
             \<and> history_count st' = history_count st)
        \<and> (\<not> kept \<longrightarrow>
             history_ok st'
             \<and> st' = st\<lparr>history_last := history_last st', history_first := history_first st',
                         history := history st', current_avg_rate := current_avg_rate st'\<rparr>
             \<and> history st' = Some (h[history_last st' := sample])
             \<and> (history_count st' = 1 \<longrightarrow> current_avg_rate st' = rate)
             \<and> (2 \<le> history_count st' \<longrightarrow>
                  current_avg_rate st' =
                    real_of_int (total_bytes - hist_total_bytes oldest)
                      / (elapsed_sec - hist_elapsed_sec oldest)))"
proof -
  let ?L = "history_len st" and ?f = "history_first st" and ?l = "history_last st"
  let ?e = "hist_elapsed_sec (h ! ?l)"
  let ?l' = "if 0 < ?e then (?l + 1) mod ?L else ?l"
  let ?f' = "if 0 < ?e \<and> ?l' = ?f then (?f + 1) mod ?L else ?f"
  let ?sample = "\<lparr>hist_elapsed_sec = elapsed_sec, hist_total_bytes = total_bytes\<rparr>"
  let ?h' = "h[?l' := ?sample]"
  let ?st' = "update_history_avg_rate st total_bytes elapsed_sec rate"
  let ?kept = "0 < ?e \<and> elapsed_sec < ?e + history_interval st"
  have ok: "0 < ?L" "length h = ?L" "?f < ?L" "?l < ?L"
    using assms by (simp_all add: history_ok_def)
  have l'lt: "?l' < ?L" using ok by simp
  have f'lt: "?f' < ?L" using ok by simp
  have full: "(history_count st = ?L) = ((?l + 1) mod ?L = ?f)"
    unfolding history_count_def by (rule ring_count_full [OF ok(3,4)])
  have keep: "?st' = st" if "?kept"
    using that by (intro update_history_keep [OF assms(1)]) simp_all
  have eq: "?st' = st\<lparr>history_last := ?l', history_first := ?f', history := Some ?h',
                 current_avg_rate :=
                   (if ?f' = ?l' then rate
                    else real_of_int (hist_total_bytes (?h' ! ?l') - hist_total_bytes (?h' ! ?f'))
                           / (hist_elapsed_sec (?h' ! ?l') - hist_elapsed_sec (?h' ! ?f')))\<rparr>"
    if "\<not> ?kept"
  proof (cases "0 < ?e")
    case True
    then have ge: "?e + history_interval st \<le> elapsed_sec" using that by simp
    show ?thesis
      using update_history_append [OF assms(1) True ge, of total_bytes rate] True
      by (simp add: Let_def)
  next
    case False
    then have le: "?e \<le> 0" by simp
    show ?thesis
      using update_history_overwrite [OF assms(1) le, of total_bytes elapsed_sec rate] False
      by (simp add: Let_def)
  qed
  have last': "history_last ?st' = ?l'" if "\<not> ?kept" by (simp add: eq [OF that])
  have first': "history_first ?st' = ?f'" if "\<not> ?kept" by (simp add: eq [OF that])
  have len': "history_len ?st' = ?L" if "\<not> ?kept" by (simp add: eq [OF that])
  have hist': "history ?st' = Some ?h'" if "\<not> ?kept" by (simp add: eq [OF that])
  have ok': "history_ok ?st'" if "\<not> ?kept"
    unfolding history_ok_def hist' [OF that] last' [OF that] first' [OF that] len' [OF that]
    using ok l'lt f'lt by simp
  have one: "(history_count ?st' = 1) = (?f' = ?l')" if "\<not> ?kept"
    unfolding history_count_def last' [OF that] first' [OF that] len' [OF that]
    by (rule ring_count_one [OF f'lt l'lt])
  have avg1: "current_avg_rate ?st' = rate" if "\<not> ?kept" "history_count ?st' = 1"
    using that(2) unfolding one [OF that(1)] by (simp add: eq [OF that(1)])
  have newest: "?h' ! ?l' = ?sample" using l'lt ok(2) by simp
  have avg2: "current_avg_rate ?st' =
          real_of_int (total_bytes - hist_total_bytes (?h' ! ?f'))
            / (elapsed_sec - hist_elapsed_sec (?h' ! ?f'))"
    if "\<not> ?kept" "2 \<le> history_count ?st'"
  proof -
    have "history_count ?st' \<noteq> 1" using that(2) by simp
    then have "?f' \<noteq> ?l'" unfolding one [OF that(1)] .
    then show ?thesis using newest by (simp add: eq [OF that(1)])
  qed
  have cnt: "history_count ?st' = (if (?l + 1) mod ?L = ?f then ?L else history_count st + 1)"
    if "0 < ?e" "?e + history_interval st \<le> elapsed_sec"
  proof -
    have nk: "\<not> ?kept" using that by simp
    show ?thesis
    proof (cases "(?l + 1) mod ?L = ?f")
      case True
      then show ?thesis
        unfolding history_count_def last' [OF nk] first' [OF nk] len' [OF nk]
        using ring_count_evict [OF ok(3)] that(1) by simp
    next
      case False
      then show ?thesis
        unfolding history_count_def last' [OF nk] first' [OF nk] len' [OF nk]
        using ring_count_step [OF ok(3,4) False] that(1) by simp
    qed
  qed
  show ?thesis
    unfolding Let_def
  proof (intro conjI impI)
    assume "?kept"
    then show "?st' = st" by (rule keep)
  next
    assume a: "0 < ?e \<and> ?e + history_interval st \<le> elapsed_sec"
    then have nk: "\<not> ?kept" by simp
    show "history_last ?st' = (?l + 1) mod ?L" using a by (simp add: last' [OF nk])
    show "history_first ?st' = (if history_count st = ?L then (?f + 1) mod ?L else ?f)"
      using a by (simp add: first' [OF nk] full)
    show "history_count ?st' = (if history_count st = ?L then ?L else history_count st + 1)"
      using cnt a by (simp only: full)
  next
    assume a: "?e \<le> 0"
    then have nk: "\<not> ?kept" by simp
    show "history_last ?st' = ?l" using a by (simp add: last' [OF nk])
    show "history_first ?st' = ?f" using a by (simp add: first' [OF nk])
    show "history_count ?st' = history_count st"
      using a by (simp add: history_count_def last' [OF nk] first' [OF nk] len' [OF nk])
  next
    assume nk: "\<not> ?kept"
    show "history_ok ?st'" by (rule ok' [OF nk])
    show "?st' = st\<lparr>history_last := history_last ?st', history_first := history_first ?st',
                      history := history ?st', current_avg_rate := current_avg_rate ?st'\<rparr>"
      by (simp add: eq [OF nk])
    show "history ?st' = Some (h[history_last ?st' := ?sample])"
      unfolding last' [OF nk] by (rule hist' [OF nk])
    show "current_avg_rate ?st' = rate" if "history_count ?st' = 1"
      using nk that by (rule avg1)
    show "current_avg_rate ?st' =
            real_of_int (total_bytes - hist_total_bytes (the (history ?st') ! history_first ?st'))
              / (elapsed_sec - hist_elapsed_sec (the (history ?st') ! history_first ?st'))"
      if "2 \<le> history_count ?st'"
      using avg2 [OF nk that] unfolding hist' [OF nk] first' [OF nk] by simp
  qed
qed

theorem update_history_avg_rate_window_witness:
  "update_history_avg_rate state1 1500 (3 / 2) 7 = state1
   \<and> history_last (update_history_avg_rate state1 1500 2 7) = 1
   \<and> history_first (update_history_avg_rate state1 1500 2 7) = 0
   \<and> history_count (update_history_avg_rate state1 1500 2 7) = 2
   \<and> current_avg_rate (update_history_avg_rate state1 1500 2 7) = 1000
   \<and> history_last (update_history_avg_rate state0 100 0 7) = 0
   \<and> history_count (update_history_avg_rate state0 100 0 7) = 1
   \<and> current_avg_rate (update_history_avg_rate state0 100 0 7) = 7"
proof -
  have h: "history state1 = Some [\<lparr>hist_elapsed_sec = 1, hist_total_bytes = 500\<rparr>,
                                      \<lparr>hist_elapsed_sec = 0, hist_total_bytes = 0\<rparr>,
                                      \<lparr>hist_elapsed_sec = 0, hist_total_bytes = 0\<rparr>]"
    by (simp add: state1_def)
  have ok: "history_ok state1" by (simp add: history_ok_def state1_def state0_def)
  have h0: "history state0 = Some [\<lparr>hist_elapsed_sec = 0, hist_total_bytes = 0\<rparr>,
                                      \<lparr>hist_elapsed_sec = 0, hist_total_bytes = 0\<rparr>,
                                      \<lparr>hist_elapsed_sec = 0, hist_total_bytes = 0\<rparr>]"
    by (simp add: state0_def numeral_3_eq_3)
  have ok0: "history_ok state0" by (simp add: history_ok_def state0_def)
  have c: "history_count state1 = 1" "history_len state1 = 3" "history_last state1 = 0"
    "history_first state1 = 0" "history_interval state1 = 1"
    "history_count state0 = 1" "history_len state0 = 3" "history_last state0 = 0"
    "history_first state0 = 0" "history_interval state0 = 1"
    by (simp_all add: history_count_def state1_def state0_def)
  show ?thesis
    using update_history_avg_rate_window [OF h ok, of 1500 "3 / 2" 7]
      update_history_avg_rate_window [OF h ok, of 1500 2 7]
      update_history_avg_rate_window [OF h0 ok0, of 100 0 7]
    by (simp add: Let_def c)
qed

text \<open>
  C2 as the specification states it fails after a first observation at 0 seconds: the
  second observation, half a second later with an interval of one second, appends no
  sample (one sample is stored before and after), and yet the average changes from 7 to 9,
  because the code takes the stored sample for an empty entry and writes over it.
\<close>

theorem update_history_avg_rate_counterexample:
  "history_count state_first = 1
   \<and> current_avg_rate state_first = 7
   \<and> hist_elapsed_sec (the (history state_first) ! history_last state_first) = 0
   \<and> history_interval state_first = 1
   \<and> history_count (update_history_avg_rate state_first 600 (1 / 2) 9) = 1
   \<and> current_avg_rate (update_history_avg_rate state_first 600 (1 / 2) 9) = 9
   \<and> current_avg_rate (update_history_avg_rate state_first 600 (1 / 2) 9)
       \<noteq> current_avg_rate state_first"
  by (simp add: state_first_def state0_def update_history_avg_rate_def history_count_def
      Let_def numeral_3_eq_3)


subsection \<open>The percentage of an unknown size\<close>

lemma percentage_wrap:
  assumes "0 \<le> (p::int)" "p \<le> 198" "even p"
  shows "(if 199 < p + 2 then 0 else p + 2) = (p + 2) mod 200"
proof (cases "p = 198")
  case True
  then show ?thesis by simp
next
  case False
  obtain k where k: "p = 2 * k" using assms(3) by (auto elim: evenE)
  have "k \<le> 98" using assms(2) False k by arith
  then have "p + 2 < 200" using k by simp
  then show ?thesis using assms(1) by simp
qed

lemma percentage_wrap_range:
  assumes "0 \<le> (p::int)" "p \<le> 198" "even p"
  shows "0 \<le> (p + 2) mod 200 \<and> (p + 2) mod 200 \<le> 198 \<and> even ((p + 2) mod 200)"
proof (cases "p = 198")
  case True
  then show ?thesis by simp
next
  case False
  obtain k where k: "p = 2 * k" using assms(3) by (auto elim: evenE)
  have "k \<le> 98" using assms(2) False k by arith
  then have "p + 2 \<le> 198" using k by simp
  moreover have "(p + 2) mod 200 = p + 2"
    using percentage_wrap [OF assms] calculation by simp
  ultimately show ?thesis using assms(1,3) by simp
qed

lemma pv__format_size: "size_st (snd (pv__format E K st e b t)) = size_st st"
  by (simp add: pv__format_def Let_def split_beta frames)

lemma pv__format_percentage:
  assumes "size_st st \<le> 0" "0 \<le> t"
  shows "percentage (snd (pv__format E K st e b t)) =
           (let p = (if 0 < rate_of_call st e b t then percentage st + 2 else percentage st)
            in if 199 < p then 0 else p)"
proof -
  let ?u = "update_rates st e b t"
  let ?st2 = "step_percentage (fst ?u) (fst (snd (snd ?u))) t"
  have "percentage (snd (pv__format E K st e b t)) = percentage ?st2"
    using assms
    by (simp add: pv__format_def Let_def split_beta frames render_progress_percentage)
  also have "\<dots> = (let p = (if 0 < rate_of_call st e b t then percentage st + 2 else percentage st)
            in if 199 < p then 0 else p)"
    using assms(1) by (simp add: step_percentage_def Let_def frames rate_of_call_def)
  finally show ?thesis .
qed

lemma pv__format_calls_cycle:
  "size_st st \<le> 0 \<Longrightarrow> 0 \<le> percentage st \<Longrightarrow> percentage st \<le> 198 \<Longrightarrow>
   even (percentage st) \<Longrightarrow> rates_positive K st calls \<Longrightarrow>
   percentage (pv__format_calls K st calls) = (percentage st + 2 * int (length calls)) mod 200"
proof (induction calls arbitrary: st)
  case Nil
  then show ?case by simp
next
  case (Cons c calls)
  obtain E e b t where c: "c = (E, e, b, t)" by (cases c) auto
  let ?st = "snd (pv__format E K st e b t)"
  have t: "0 \<le> t" and r: "0 < rate_of_call st e b t" and rest: "rates_positive K ?st calls"
    using Cons.prems(5) by (simp_all add: c)
  have p: "percentage ?st = (if 199 < percentage st + 2 then 0 else percentage st + 2)"
    using pv__format_percentage [OF Cons.prems(1) t, of E K e b] r by (simp add: Let_def)
  have p': "percentage ?st = (percentage st + 2) mod 200"
    using p percentage_wrap [OF Cons.prems(2,3,4)] by simp
  have "0 \<le> percentage ?st" "percentage ?st \<le> 198" "even (percentage ?st)"
    using percentage_wrap_range [OF Cons.prems(2,3,4)] by (simp_all add: p')
  from Cons.IH [OF _ this rest]
  have "percentage (pv__format_calls K ?st calls)
          = ((percentage st + 2) mod 200 + 2 * int (length calls)) mod 200"
    using Cons.prems(1) by (simp add: pv__format_size p')
  also have "\<dots> = (percentage st + 2 + 2 * int (length calls)) mod 200"
    by (rule mod_add_left_eq)
  also have "percentage st + 2 + 2 * int (length calls) = percentage st + 2 * int (length (c # calls))"
    by simp
  finally show ?case by (simp add: c)
qed

text \<open>
  C3.  With an unknown size (\<open>size \<le> 0\<close>), a call that renders adds 2 to the percentage
  when its rate is above 0 and then sets a percentage above 199 to 0.  So, from 0, after
  \<open>n\<close> renders with a positive rate the percentage is \<open>2 * n mod 200\<close>: the even values
  0, 2, ..., 198, 0, 2, ...  A render whose rate is 0 leaves the percentage as it is.
\<close>

theorem pv__format_unknown_size_percentage:
  assumes "size_st st \<le> 0"
  shows "(0 \<le> total_bytes \<longrightarrow>
            percentage (snd (pv__format E K st elapsed_sec bytes_since_last total_bytes)) =
              (let p = (if 0 < rate_of_call st elapsed_sec bytes_since_last total_bytes
                        then percentage st + 2 else percentage st)
               in if 199 < p then 0 else p))
         \<and> (percentage st = 0 \<and> rates_positive K st calls \<longrightarrow>
              percentage (pv__format_calls K st calls) = (2 * int (length calls)) mod 200)
         \<and> (0 \<le> total_bytes \<and> percentage st \<le> 199
              \<and> rate_of_call st elapsed_sec bytes_since_last total_bytes = 0 \<longrightarrow>
              percentage (snd (pv__format E K st elapsed_sec bytes_since_last total_bytes)) =
                percentage st)"
proof -
  have a: "0 \<le> total_bytes \<Longrightarrow>
            percentage (snd (pv__format E K st elapsed_sec bytes_since_last total_bytes)) =
              (let p = (if 0 < rate_of_call st elapsed_sec bytes_since_last total_bytes
                        then percentage st + 2 else percentage st)
               in if 199 < p then 0 else p)"
    by (rule pv__format_percentage [OF assms])
  have b: "percentage st = 0 \<Longrightarrow> rates_positive K st calls \<Longrightarrow>
              percentage (pv__format_calls K st calls) = (2 * int (length calls)) mod 200"
    using pv__format_calls_cycle [OF assms, of K calls] by simp
  have c: "0 \<le> total_bytes \<Longrightarrow> percentage st \<le> 199 \<Longrightarrow>
           rate_of_call st elapsed_sec bytes_since_last total_bytes = 0 \<Longrightarrow>
              percentage (snd (pv__format E K st elapsed_sec bytes_since_last total_bytes)) =
                percentage st"
    using a by (simp add: Let_def)
  show ?thesis using a b c by blast
qed


theorem pv__format_unknown_size_percentage_witness:
  "percentage (snd (pv__format libc0 sizes0 state0 1 500 500)) = 2
   \<and> percentage (pv__format_calls sizes0 state0 [(libc0, 1, 500, 500)]) = 2
   \<and> percentage (snd (pv__format libc0 sizes0 state0 1 0 0)) = 0"
  using pv__format_unknown_size_percentage [of state0 500 libc0 sizes0 1 500
      "[(libc0, 1, 500, 500)]"]
    pv__format_unknown_size_percentage [of state0 0 libc0 sizes0 1 0 "[]"]
  by (simp add: Let_def state0_def rate_of_call_eq smooth_rate_cases)

subsection \<open>The ETA\<close>




lemma bound_long_range: "lo \<le> hi \<Longrightarrow> lo \<le> bound_long x lo hi \<and> bound_long x lo hi \<le> hi"
  by (simp add: bound_long_def)






lemma ensure_buffer_malloc: "malloc_ok E \<Longrightarrow> fst (ensure_buffer E st)"
  by (simp add: ensure_buffer_def Let_def split: option.splits)

lemma pv__format_returns:
  "0 \<le> t \<Longrightarrow> malloc_ok E \<Longrightarrow> fst (pv__format E K st e b t) \<noteq> None"
  by (simp add: pv__format_def Let_def split_beta ensure_buffer_malloc pad_output_def)










subsection \<open>The progress bar of a known size\<close>

lemma pv_strlcat_fits:
  "length dst + length src < n \<Longrightarrow> pv_strlcat dst src n = dst @ src"
  by (simp add: pv_strlcat_def)

lemma fold_fill:
  "length s0 + min m (nat w) < n \<Longrightarrow>
   fold (\<lambda>i s. if int i < w then pv_strlcat s [c] n else s) [0..<m] s0
     = s0 @ replicate (min m (nat w)) c"
proof (induction m)
  case 0
  then show ?case by simp
next
  case (Suc m)
  have le: "min m (nat w) \<le> min (Suc m) (nat w)" by simp
  then have "length s0 + min m (nat w) < n" using Suc.prems by linarith
  then have IH: "fold (\<lambda>i s. if int i < w then pv_strlcat s [c] n else s) [0..<m] s0
     = s0 @ replicate (min m (nat w)) c" by (rule Suc.IH)
  show ?case
  proof (cases "int m < w")
    case True
    then have m: "min m (nat w) = m" "min (Suc m) (nat w) = Suc m" by linarith+
    have "length (s0 @ replicate m c) + length [c] < n" using Suc.prems m by simp
    then have "pv_strlcat (s0 @ replicate m c) [c] n = (s0 @ replicate m c) @ [c]"
      by (rule pv_strlcat_fits)
    then show ?thesis using True IH m by (simp add: replicate_append_same)
  next
    case False
    then have m: "min m (nat w) = nat w" "min (Suc m) (nat w) = nat w" by linarith+
    show ?thesis using False IH m by simp
  qed
qed

lemma fold_spaces:
  "length s0 + (b - a) < n \<Longrightarrow>
   fold (\<lambda>i s. pv_strlcat s [c] n) [a..<b] s0 = s0 @ replicate (b - a) c"
proof (induction b)
  case 0
  then show ?case by simp
next
  case (Suc b)
  show ?case
  proof (cases "a \<le> b")
    case True
    then have d: "Suc b - a = Suc (b - a)" by simp
    have "length s0 + (b - a) < n" using Suc.prems d by simp
    then have IH: "fold (\<lambda>i s. pv_strlcat s [c] n) [a..<b] s0 = s0 @ replicate (b - a) c"
      by (rule Suc.IH)
    have "length (s0 @ replicate (b - a) c) + length [c] < n" using Suc.prems d by simp
    then have "pv_strlcat (s0 @ replicate (b - a) c) [c] n = (s0 @ replicate (b - a) c) @ [c]"
      by (rule pv_strlcat_fits)
    then show ?thesis using True IH d by (simp add: replicate_append_same)
  next
    case False
    then show ?thesis by simp
  qed
qed


lemma sdiv_nonneg: "0 \<le> a \<Longrightarrow> 0 < b \<Longrightarrow> a sdiv b = a div (b::int)"
  by (cases "a = 0") (simp_all add: signed_divide_int_def sgn_if)

lemma known_size_bar_shape:
  assumes w: "0 \<le> w" and pc: "0 \<le> pc"
    and fits: "w + int (length pct) + 3 < int (PV_SIZEOF_STR_PROGRESS K)"
  shows "known_size_bar K w pc pct =
           (let fill = min (max ((w * pc) div 100 - 1) 0) w
            in ''['' @ replicate (nat fill) CHR ''=''
               @ (if fill < w then ''>'' @ replicate (nat (w - fill - 1)) CHR '' '' else [])
               @ ''] '' @ pct)"
proof -
  define n where "n = PV_SIZEOF_STR_PROGRESS K"
  define bound where "bound = (w * pc) div 100 - 1"
  define i0 where "i0 = (if 0 < bound then bound else 0)"
  define fill where "fill = min (max bound 0) w"
  have sd: "(w * pc) sdiv 100 = (w * pc) div 100"
    using w pc by (intro sdiv_nonneg) simp_all
  have fits': "w + int (length pct) + 3 < int n" using fits by (simp add: n_def)
  have i0: "i0 = max bound 0" by (simp add: i0_def max_def)
  have fill_le: "fill \<le> w" "0 \<le> fill" using w by (simp_all add: fill_def)
  have fillnat: "min (nat bound) (nat w) = nat fill"
    unfolding fill_def min_def max_def using w by (simp split: if_splits)
  have s1: "fold (\<lambda>i s. if int i < w then pv_strlcat s ''='' n else s) [0..<nat bound] ''[''
              = ''['' @ replicate (nat fill) CHR ''=''"
  proof -
    have "Suc (nat fill) < n" using fits' fill_le by linarith
    then have "length ''['' + min (nat bound) (nat w) < n" by (simp add: fillnat)
    then show ?thesis unfolding fillnat [symmetric] by (rule fold_fill)
  qed
  define s1 where "s1 = ''['' @ replicate (nat fill) CHR ''=''"
  have len1: "int (length s1) = fill + 1" using fill_le by (simp add: s1_def)
  have body: "known_size_bar K w pc pct =
      (let (s, i) = (if i0 < w then (pv_strlcat s1 ''>'' n, i0 + 1) else (s1, i0));
           s = fold (\<lambda>i s. pv_strlcat s '' '' n) [nat i..<nat w] s;
           s = pv_strlcat s ''] '' n
       in pv_strlcat s pct n)"
    unfolding known_size_bar_def Let_def sd
    by (simp only: n_def [symmetric] bound_def [symmetric] i0_def [symmetric] s1 s1_def [symmetric])
  show ?thesis
  proof (cases "i0 < w")
    case True
    then have fill: "fill = i0" unfolding fill_def i0 by linarith
    have "length s1 + length ''>'' < n" using fits' fill_le len1 by simp
    then have s2: "pv_strlcat s1 ''>'' n = s1 @ ''>''" by (rule pv_strlcat_fits)
    have "0 \<le> i0" by (simp add: i0)
    then have sp: "nat w - nat (i0 + 1) = nat (w - fill - 1)" using True fill by linarith
    have "int (length (s1 @ ''>'')) + int (nat w - nat (i0 + 1)) < int n"
      unfolding sp using fits' fill_le True fill len1 by simp
    then have "length (s1 @ ''>'') + (nat w - nat (i0 + 1)) < n" by linarith
    then have s3: "fold (\<lambda>i s. pv_strlcat s '' '' n) [nat (i0 + 1)..<nat w] (s1 @ ''>'')
            = (s1 @ ''>'') @ replicate (nat w - nat (i0 + 1)) CHR '' ''"
      by (rule fold_spaces)
    define s3 where "s3 = (s1 @ ''>'') @ replicate (nat (w - fill - 1)) CHR '' ''"
    have len3: "int (length s3) = w + 1" using True fill fill_le len1 by (simp add: s3_def)
    have "length s3 + length ''] '' < n" using fits' len3 by simp
    then have s4: "pv_strlcat s3 ''] '' n = s3 @ ''] ''" by (rule pv_strlcat_fits)
    have "length (s3 @ ''] '') + length pct < n" using fits' len3 by simp
    then have s5: "pv_strlcat (s3 @ ''] '') pct n = (s3 @ ''] '') @ pct"
      by (rule pv_strlcat_fits)
    have "known_size_bar K w pc pct = (s3 @ ''] '') @ pct"
      unfolding body Let_def
      by (simp only: True if_True prod.case s2 s3 sp s3_def [symmetric] s4 s5)
    also have "\<dots> = ''['' @ replicate (nat fill) CHR ''=''
               @ (if fill < w then ''>'' @ replicate (nat (w - fill - 1)) CHR '' '' else [])
               @ ''] '' @ pct"
      using True fill by (simp add: s3_def s1_def)
    finally show ?thesis unfolding Let_def fill_def bound_def .
  next
    case False
    then have fill: "fill = w" unfolding fill_def i0 by linarith
    have e: "[nat i0..<nat w] = []" using False by simp
    have "length s1 + length ''] '' < n" using fits' len1 fill by simp
    then have s4: "pv_strlcat s1 ''] '' n = s1 @ ''] ''" by (rule pv_strlcat_fits)
    have "length (s1 @ ''] '') + length pct < n" using fits' len1 fill by simp
    then have s5: "pv_strlcat (s1 @ ''] '') pct n = (s1 @ ''] '') @ pct"
      by (rule pv_strlcat_fits)
    have "known_size_bar K w pc pct = (s1 @ ''] '') @ pct"
      unfolding body Let_def
      by (simp only: False if_False prod.case e fold_simps s4 s5)
    also have "\<dots> = ''['' @ replicate (nat fill) CHR ''=''
               @ (if fill < w then ''>'' @ replicate (nat (w - fill - 1)) CHR '' '' else [])
               @ ''] '' @ pct"
      using fill by (simp add: s1_def)
    finally show ?thesis unfolding Let_def fill_def bound_def .
  qed
qed

lemma length_string_of_nat:
  "0 < k \<Longrightarrow> n < 10 ^ k \<Longrightarrow> length (string_of_nat n) \<le> k"
proof (induction k arbitrary: n)
  case 0
  then show ?case by simp
next
  case (Suc k)
  show ?case
  proof (cases "n < 10")
    case True
    then show ?thesis by (simp add: string_of_nat.simps [of n])
  next
    case False
    have d: "n div 10 < 10 ^ k" using Suc.prems(2) by (simp add: less_mult_imp_div_less mult.commute)
    have "0 < k"
    proof (rule ccontr)
      assume "\<not> 0 < k"
      then have "k = 0" by simp
      then show False using Suc.prems(2) False by simp
    qed
    from Suc.IH [OF this d] show ?thesis using False by (simp add: string_of_nat.simps [of n])
  qed
qed

lemma length_pct_str:
  assumes "0 \<le> pc" "pc \<le> 100000"
  shows "length (pct_str pc) \<le> 7"
proof -
  have "nat pc < 10 ^ 6" using assms by simp
  then have "length (string_of_nat (nat pc)) \<le> 6" by (intro length_string_of_nat) simp_all
  then have "length (fmt_ld_width 2 pc) \<le> 6" using assms(1) by (simp add: fmt_ld_width_def fmt_ld_def)
  then show ?thesis by (simp add: pct_str_def snprintf_def)
qed

lemma clamp_width_range:
  assumes "16 \<le> PV_SIZEOF_STR_PROGRESS K"
  shows "0 \<le> clamp_width K x" and "clamp_width K x \<le> int (PV_SIZEOF_STR_PROGRESS K) - 16"
  using assms by (simp_all add: clamp_width_def Let_def)

text \<open>
  C6, as the code has it.  With the size known, the percentage is clamped into
  0 .. 100000 and the available width \<open>w\<close> into 0 .. \<^verbatim>\<open>PV_SIZEOF_STR_PROGRESS - 16\<close>.
  The bar has \<open>floor (w * p / 100) - 1\<close> fill characters (none when this is negative, and
  no more than \<open>w\<close>), then the marker when the fill is shorter than \<open>w\<close>, then spaces up
  to the width \<open>w\<close>, in brackets, with the percentage after the closing bracket.  A bar
  that does not fit the terminal width is dropped.
\<close>

theorem render_progress_known_size:
  assumes "PV_DISPLAY_PROGRESS \<in> components_used st" and "0 < size_st st"
    and "16 \<le> PV_SIZEOF_STR_PROGRESS K"
  shows
    "let p = (if percentage st < 0 then 0
              else if 100000 < percentage st then 100000 else percentage st);
         pct = pct_str p;
         w = clamp_width K (int (width st) - static_portion_size - int (length pct) - 3);
         fill = min (max ((w * p) div 100 - 1) 0) w;
         bar = ''['' @ replicate (nat fill) CHR ''=''
               @ (if fill < w then ''>'' @ replicate (nat (w - fill - 1)) CHR '' '' else [])
               @ ''] '' @ pct;
         st' = render_progress K st static_portion_size
     in 0 \<le> w \<and> 0 \<le> fill \<and> fill \<le> w
        \<and> percentage st' = p
        \<and> str_progress st' =
            (if int (length bar) + static_portion_size > int (width st) then [] else bar)"
proof -
  define p where "p = (if percentage st < 0 then 0
              else if 100000 < percentage st then 100000 else percentage st)"
  define w where "w = clamp_width K (int (width st) - static_portion_size - int (length (pct_str p)) - 3)"
  define fill where "fill = min (max ((w * p) div 100 - 1) 0) w"
  define bar where "bar = ''['' @ replicate (nat fill) CHR ''=''
               @ (if fill < w then ''>'' @ replicate (nat (w - fill - 1)) CHR '' '' else [])
               @ ''] '' @ pct_str p"
  have p: "0 \<le> p" "p \<le> 100000" by (simp_all add: p_def)
  have w: "0 \<le> w" "w \<le> int (PV_SIZEOF_STR_PROGRESS K) - 16"
    unfolding w_def using clamp_width_range [OF assms(3)] by simp_all
  have fill: "0 \<le> fill" "fill \<le> w" using w(1) by (simp_all add: fill_def)
  have "w + int (length (pct_str p)) + 3 < int (PV_SIZEOF_STR_PROGRESS K)"
    using w(2) length_pct_str [OF p] by linarith
  from known_size_bar_shape [OF w(1) p(1) this]
  have shape: "known_size_bar K w p (pct_str p) = bar"
    unfolding Let_def bar_def fill_def .
  have st1: "(if percentage (if percentage st < 0 then st\<lparr>percentage := 0\<rparr> else st) > 100000
              then (if percentage st < 0 then st\<lparr>percentage := 0\<rparr> else st)\<lparr>percentage := 100000\<rparr>
              else (if percentage st < 0 then st\<lparr>percentage := 0\<rparr> else st)) = st\<lparr>percentage := p\<rparr>"
    by (simp add: p_def)
  have r: "render_progress K st static_portion_size =
      (if int (length bar) + static_portion_size > int (width st)
       then st\<lparr>percentage := p, str_progress := []\<rparr>
       else st\<lparr>percentage := p, str_progress := bar\<rparr>)"
    unfolding render_progress_def Let_def st1
    using assms(1,2) by (simp add: shape w_def [symmetric])
  have pc: "percentage (render_progress K st static_portion_size) = p"
    by (simp add: r)
  have sp: "str_progress (render_progress K st static_portion_size) =
            (if int (length bar) + static_portion_size > int (width st) then [] else bar)"
    by (simp add: r)
  note facts = w(1) fill pc sp
  show ?thesis
    unfolding Let_def
    by (intro conjI) (rule facts [unfolded bar_def fill_def w_def p_def])+
qed

theorem render_progress_known_size_witness:
  "str_progress (render_progress sizes0 state_bar 0) = ''[===========>            ] 50%''
   \<and> percentage (render_progress sizes0 state_bar 0) = 50"
proof -
  have r: "replicate 11 CHR ''='' = ''==========='' " "replicate 12 CHR '' '' = ''            ''"
    by code_simp+
  have pct: "pct_str 50 = ''50%''"
    by (simp add: pct_str_def snprintf_def fmt_ld_width_def fmt_ld_def string_of_nat.simps)
  have a: "PV_DISPLAY_PROGRESS \<in> components_used state_bar" "0 < size_st state_bar"
    "16 \<le> PV_SIZEOF_STR_PROGRESS sizes0"
    by (simp_all add: state_bar_def state0_def sizes0_def)
  have c: "percentage state_bar = 50" "width state_bar = 30"
    by (simp_all add: state_bar_def state0_def)
  have w: "clamp_width sizes0 24 = 24" by (simp add: clamp_width_def sizes0_def)
  show ?thesis
    using render_progress_known_size [OF a, of 0]
    by (simp add: Let_def c pct w r)
qed


text \<open>
  C6 as the specification states it fails: at the width 10 and 50 percent the bar has four
  fill characters before the marker, not \<open>floor (10 * 50 / 100) = 5\<close>.
\<close>

theorem known_size_bar_counterexample:
  "known_size_bar sizes0 10 50 (pct_str 50) = ''[====>     ] 50%''
   \<and> known_size_bar sizes0 10 50 (pct_str 50) \<noteq> spec_known_size_bar 10 50 (pct_str 50)"
proof -
  have r: "replicate 4 CHR ''='' = ''===='' " "replicate 5 CHR '' '' = ''     ''"
    "replicate 5 CHR ''='' = ''====='' " "replicate 4 CHR '' '' = ''    ''"
    by code_simp+
  have pct: "pct_str 50 = ''50%''"
    by (simp add: pct_str_def snprintf_def fmt_ld_width_def fmt_ld_def string_of_nat.simps)
  have "known_size_bar sizes0 10 50 ''50%'' = ''[====>     ] 50%''"
    using known_size_bar_shape [of 10 50 "''50%''" sizes0]
    by (simp add: sizes0_def Let_def r)
  moreover have "spec_known_size_bar 10 50 ''50%'' = ''[=====>    ] 50%''"
    by (simp add: spec_known_size_bar_def Let_def r)
  ultimately show ?thesis unfolding pct by simp
qed


subsection \<open>The output line\<close>

lemma length_seg_text:
  "seg_ok st seg \<Longrightarrow>
   int (length (seg_text st seg)) =
     (if seg_length seg > 0 then seg_length seg else int (length (deref st (seg_string seg))))"
  by (simp add: seg_text_def seg_ok_def)

lemma assemble_refines:
  assumes cap: "int (width st) < display_buffer_size st - 2"
  shows "\<forall>seg\<in>set segs. seg_ok st seg \<Longrightarrow> int (length buf) \<le> int (width st) \<Longrightarrow>
         assemble st segs buf (int (length buf)) =
           spec_assemble (display_buffer_size st - 2) (int (width st)) (map (seg_text st) segs) buf"
proof (induction segs arbitrary: buf)
  case Nil
  then show ?case by simp
next
  case (Cons seg segs)
  define n where "n = (if seg_length seg > 0 then seg_length seg
                       else int (length (deref st (seg_string seg))))"
  have ok: "seg_ok st seg" and oks: "\<forall>seg\<in>set segs. seg_ok st seg" using Cons.prems(1) by simp_all
  have len: "int (length (seg_text st seg)) = n"
    unfolding n_def by (rule length_seg_text [OF ok])
  have n0: "0 \<le> n" by (simp add: n_def)
  show ?case
  proof (cases "n = 0")
    case True
    then have "seg_text st seg = []" using len by simp
    moreover have "assemble st (seg # segs) buf (int (length buf)) =
                     assemble st segs buf (int (length buf))"
      using True by (simp add: n_def Let_def)
    ultimately show ?thesis
      using Cons.IH [OF oks Cons.prems(2)] Cons.prems(2) cap by simp
  next
    case False
    then have npos: "0 < n" using n0 by simp
    show ?thesis
    proof (cases "n + int (length buf) > int (width st)")
      case True
      have "assemble st (seg # segs) buf (int (length buf)) = buf"
        using True False cap Cons.prems(2)
        by (simp add: n_def [symmetric] Let_def)
      then show ?thesis using True len by simp
    next
      case fits: False
      have cat: "strncat buf (deref st (seg_string seg)) (nat n) = buf @ seg_text st seg"
        using npos by (auto simp: strncat_def seg_text_def n_def split: if_splits)
      have "assemble st (seg # segs) buf (int (length buf)) =
              assemble st segs (buf @ seg_text st seg) (int (length buf) + n)"
        using fits False npos cap by (simp add: n_def [symmetric] Let_def cat)
      also have "int (length buf) + n = int (length (buf @ seg_text st seg))"
        using len by simp
      also have "assemble st segs (buf @ seg_text st seg) (int (length (buf @ seg_text st seg))) =
          spec_assemble (display_buffer_size st - 2) (int (width st)) (map (seg_text st) segs)
            (buf @ seg_text st seg)"
        using fits len by (intro Cons.IH [OF oks]) simp
      finally show ?thesis using fits len cap by simp
    qed
  qed
qed


lemma spec_assemble_prefix:
  "\<exists>k\<le>length ts. spec_assemble capacity w ts line = line @ concat (take k ts)"
proof (induction ts arbitrary: line)
  case Nil
  then show ?case by simp
next
  case (Cons t ts)
  show ?case
  proof (cases "int (length line + length t) > capacity \<or> int (length line + length t) > w")
    case True
    then have "spec_assemble capacity w (t # ts) line = line @ concat (take 0 (t # ts))" by simp
    then show ?thesis by blast
  next
    case False
    obtain k where k: "k \<le> length ts"
      "spec_assemble capacity w ts (line @ t) = (line @ t) @ concat (take k ts)"
      using Cons.IH [of "line @ t"] by blast
    have "spec_assemble capacity w (t # ts) line = line @ concat (take (Suc k) (t # ts))"
      using False k(2) by simp
    moreover have "Suc k \<le> length (t # ts)" using k(1) by simp
    ultimately show ?thesis by blast
  qed
qed

lemma length_spec_assemble:
  "int (length line) \<le> w \<Longrightarrow> int (length (spec_assemble capacity w ts line)) \<le> w"
  by (induction ts arbitrary: line) auto

lemma ensure_buffer_capacity:
  assumes "buffer_ok st" "fst (ensure_buffer E st)"
  shows "int (width (snd (ensure_buffer E st))) + 15 < display_buffer_size (snd (ensure_buffer E st))"
    and "buffer_ok (snd (ensure_buffer E st))"
    and "width (snd (ensure_buffer E st)) = width st"
  using assms
  by (auto simp: ensure_buffer_def buffer_ok_def Let_def split: option.splits if_splits)

lemma length_assemble:
  "int (length buf) \<le> dsl \<Longrightarrow> dsl \<le> int (width st) \<Longrightarrow>
   int (length (assemble st segs buf dsl)) \<le> int (width st)"
proof (induction segs arbitrary: buf dsl)
  case Nil
  then show ?case by simp
next
  case (Cons seg segs)
  define n0 where "n0 = (if seg_length seg > 0 then seg_length seg
                        else int (length (deref st (seg_string seg))))"
  define n1 where "n1 = (if n0 + dsl > display_buffer_size st - 2
                        then display_buffer_size st - dsl - 2 else n0)"
  have step: "assemble st (seg # segs) buf dsl =
      (if n0 = 0 then assemble st segs buf dsl
       else if n1 < 1 then buf
       else if n1 + dsl > int (width st) then buf
       else assemble st segs (strncat buf (deref st (seg_string seg)) (nat n1)) (dsl + n1))"
    by (simp add: Let_def n0_def n1_def)
  have keep: "int (length buf) \<le> int (width st)" using Cons.prems by linarith
  show ?case
  proof (cases "n0 = 0 \<or> n1 < 1 \<or> n1 + dsl > int (width st)")
    case True
    then show ?thesis
      unfolding step using keep Cons.IH [OF Cons.prems] by auto
  next
    case False
    then have n1: "1 \<le> n1" "n1 + dsl \<le> int (width st)" by simp_all
    have "int (length (strncat buf (deref st (seg_string seg)) (nat n1))) \<le> dsl + n1"
      using Cons.prems(1) n1(1) by (simp add: strncat_def)
    moreover have "dsl + n1 \<le> int (width st)" using n1(2) by simp
    ultimately have "int (length (assemble st segs
        (strncat buf (deref st (seg_string seg)) (nat n1)) (dsl + n1))) \<le> int (width st)"
      by (rule Cons.IH)
    then show ?thesis unfolding step using False by simp
  qed
qed

lemma buffer_frame:
  "display_buffer (fst (update_rates st e b t)) = display_buffer st"
  "display_buffer_size (fst (update_rates st e b t)) = display_buffer_size st"
  "width (fst (update_rates st e b t)) = width st"
  "prev_width (fst (update_rates st e b t)) = prev_width st"
  "prev_length (fst (update_rates st e b t)) = prev_length st"
  "display_buffer (step_percentage st r t) = display_buffer st"
  "display_buffer_size (step_percentage st r t) = display_buffer_size st"
  "width (step_percentage st r t) = width st"
  "prev_width (step_percentage st r t) = prev_width st"
  "prev_length (step_percentage st r t) = prev_length st"
  "prev_width (snd (ensure_buffer E st)) = prev_width st"
  "prev_length (snd (ensure_buffer E st)) = prev_length st"
  "display_buffer_size (render_fields E K st e b t r a) = display_buffer_size st"
  "width (render_fields E K st e b t r a) = width st"
  "prev_width (render_fields E K st e b t r a) = prev_width st"
  "prev_length (render_fields E K st e b t r a) = prev_length st"
  "display_buffer_size (render_progress K st n) = display_buffer_size st"
  "width (render_progress K st n) = width st"
  "prev_width (render_progress K st n) = prev_width st"
  "prev_length (render_progress K st n) = prev_length st"
  by (simp_all add: update_rates_def update_history_avg_rate_def smooth_rate_def
      step_percentage_def ensure_buffer_def render_fields_def render_progress_def Let_def
      split: option.splits)

lemma pv__format_line:
  assumes "buffer_ok st" "0 \<le> t" "\<not> numeric st" "fst (pv__format E K st e b t) \<noteq> None"
  shows "\<exists>st3. snd (pv__format E K st e b t) = pad_output st3 (assemble st3 (format st3) [] 0)
           \<and> fst (pv__format E K st e b t) = display_buffer (snd (pv__format E K st e b t))
           \<and> int (width st3) + 2 < display_buffer_size st3
           \<and> int (length (assemble st3 (format st3) [] 0)) + 15 < display_buffer_size st3
           \<and> width st3 = width st \<and> prev_width st3 = prev_width st
           \<and> prev_length st3 = prev_length st"
proof -
  let ?u = "update_rates st e b t"
  let ?st2 = "step_percentage (fst ?u) (fst (snd (snd ?u))) t"
  let ?st3 = "snd (ensure_buffer E ?st2)"
  let ?st4 = "render_fields E K ?st3 (fst (snd ?u)) b t (fst (snd (snd ?u))) (snd (snd (snd ?u)))"
  let ?st5 = "render_progress K ?st4 (static_portion ?st4)"
  have ok: "fst (ensure_buffer E ?st2)" using pv__format_None [OF assms(2,4)] .
  have "buffer_ok ?st2" using assms(1) by (simp add: buffer_ok_def buffer_frame)
  from ensure_buffer_capacity [OF this ok]
  have cap: "int (width ?st3) + 15 < display_buffer_size ?st3" and w3: "width ?st3 = width ?st2"
    by simp_all
  have w5: "width ?st5 = width st" "display_buffer_size ?st5 = display_buffer_size ?st3"
    "prev_width ?st5 = prev_width st" "prev_length ?st5 = prev_length st"
    "width ?st5 = width ?st3"
    by (simp_all add: buffer_frame w3)
  have n: "numeric ?st3 = numeric st" by (simp add: frames)
  have r: "pv__format E K st e b t =
             (display_buffer (pad_output ?st5 (assemble ?st5 (format ?st5) [] 0)),
              pad_output ?st5 (assemble ?st5 (format ?st5) [] 0))"
    using assms(2,3) ok n by (simp add: pv__format_def Let_def split_beta)
  have len: "int (length (assemble ?st5 (format ?st5) [] 0)) \<le> int (width ?st5)"
    by (rule length_assemble) simp_all
  show ?thesis
    apply (rule exI [of _ ?st5])
    using cap len w5 by (simp add: r)
qed

text \<open>
  C7.  When the buffer has room for more than the terminal width (and \<^verbatim>\<open>pv__format\<close>
  assembles the line in no other state: \<open>ensure_buffer\<close> leaves at least twice the width,
  and at least 80 bytes), the loop builds the line as the specification says: the texts of
  the segments in their order, up to the first one that would overflow the capacity or the
  width.  So the line is the concatenation of the texts of the first \<open>k\<close> segments, each
  of them whole, for some \<open>k\<close>.  The segments that \<^verbatim>\<open>pv__format_init\<close> compiles
  satisfy \<open>seg_ok\<close> (lemma \<open>pv__format_init_seg_ok\<close> below).
\<close>

theorem assemble_whole_segments:
  "(int (width st) + 2 < display_buffer_size st \<and> (\<forall>seg\<in>set segs. seg_ok st seg) \<longrightarrow>
      assemble st segs [] 0 =
        spec_assemble (display_buffer_size st - 2) (int (width st)) (map (seg_text st) segs) []
      \<and> (\<exists>k\<le>length segs. assemble st segs [] 0 = concat (map (seg_text st) (take k segs))))
   \<and> (buffer_ok st \<and> fst (ensure_buffer E st) \<longrightarrow>
        int (width (snd (ensure_buffer E st))) + 2 < display_buffer_size (snd (ensure_buffer E st)))"
proof (intro conjI impI)
  assume a: "int (width st) + 2 < display_buffer_size st \<and> (\<forall>seg\<in>set segs. seg_ok st seg)"
  then have cap: "int (width st) < display_buffer_size st - 2" by simp
  from a have oks: "\<forall>seg\<in>set segs. seg_ok st seg" by simp
  show r: "assemble st segs [] 0 =
        spec_assemble (display_buffer_size st - 2) (int (width st)) (map (seg_text st) segs) []"
    using assemble_refines [OF cap oks, of "[]"] by simp
  obtain k where k: "k \<le> length (map (seg_text st) segs)"
    "spec_assemble (display_buffer_size st - 2) (int (width st)) (map (seg_text st) segs) []
       = [] @ concat (take k (map (seg_text st) segs))"
    using spec_assemble_prefix by blast
  have "assemble st segs [] 0 = concat (map (seg_text st) (take k segs))"
    using r k(2) by (simp add: take_map)
  then show "\<exists>k\<le>length segs. assemble st segs [] 0 = concat (map (seg_text st) (take k segs))"
    using k(1) by auto
next
  assume "buffer_ok st \<and> fst (ensure_buffer E st)"
  then show "int (width (snd (ensure_buffer E st))) + 2 < display_buffer_size (snd (ensure_buffer E st))"
    using ensure_buffer_capacity(1) [of st E] by simp
qed

theorem assemble_whole_segments_witness:
  "assemble state_line (format state_line) [] 0 = ''ab0:00:01''
   \<and> int (width (snd (ensure_buffer libc0 state0))) + 2
       < display_buffer_size (snd (ensure_buffer libc0 state0))"
proof -
  have f: "format state_line = [\<lparr>seg_string = Formatstr 0, seg_length = 2\<rparr>,
                                   \<lparr>seg_string = Str_timer, seg_length = 0\<rparr>,
                                   \<lparr>seg_string = Formatstr 4, seg_length = 2\<rparr>]"
    "width state_line = 10" "display_buffer_size state_line = 100"
    "str_timer state_line = ''0:00:01''" "formatstr_of state_line = ''ab%tcd''"
    by (simp_all add: state_line_def state0_def formatstr_of_def)
  have b: "buffer_ok state0" "fst (ensure_buffer libc0 state0)"
    by (simp_all add: buffer_ok_def ensure_buffer_def state0_def libc0_def Let_def)
  show ?thesis
    using assemble_whole_segments [of state_line "format state_line" libc0]
      assemble_whole_segments [of state0 "[]" libc0] b
    by (simp add: f seg_ok_def seg_text_def)
qed

text \<open>
  C8, as the code has it.  A line shorter than the previous one gets trailing spaces, as
  many as it is shorter but at most 15, when the terminal is at least as wide as at the
  previous render: also when it has become wider.  It gets none when the terminal has
  become narrower.  The width and the padded length are stored for the next render.  The
  line that \<^verbatim>\<open>pv__format\<close> assembles is no longer than the width, so that the buffer
  has room for the spaces.
\<close>

theorem pad_output_spaces:
  assumes "int (length buf) + 15 < display_buffer_size st"
  shows "display_buffer (pad_output st buf) =
           Some (if int (length buf) < prev_length st \<and> prev_width st \<le> int (width st)
                 then buf @ replicate (nat (min 15 (prev_length st - int (length buf)))) CHR '' ''
                 else buf)
         \<and> prev_width (pad_output st buf) = int (width st)
         \<and> prev_length (pad_output st buf) = int (length (the (display_buffer (pad_output st buf))))"
proof (cases "int (length buf) < prev_length st \<and> prev_width st \<le> int (width st)")
  case True
  define k where "k = min 15 (prev_length st - int (length buf))"
  have k: "0 < k" "k \<le> 15" using True by (simp_all add: k_def)
  have k': "(if prev_length st - int (length buf) > 15 then 15
             else prev_length st - int (length buf)) = k"
    by (simp add: k_def min_def)
  have "length buf + length (replicate (nat k) CHR '' '') < nat (display_buffer_size st)"
    using assms k by simp
  then have "pv_strlcat buf (replicate (nat k) CHR '' '') (nat (display_buffer_size st))
               = buf @ replicate (nat k) CHR '' ''"
    by (rule pv_strlcat_fits)
  then show ?thesis
    using True k unfolding pad_output_def Let_def k' by (simp add: k_def [symmetric])
next
  case False
  then show ?thesis by (auto simp: pad_output_def Let_def)
qed

theorem pad_output_spaces_witness:
  "display_buffer (pad_output state_wider ''abcde'') = Some ''abcde     ''
   \<and> display_buffer (pad_output (state_wider\<lparr>width := 60\<rparr>) ''abcde'') = Some ''abcde''"
proof -
  have r: "replicate 5 CHR '' '' = ''     ''" by code_simp
  show ?thesis
    using pad_output_spaces [of "''abcde''" state_wider]
      pad_output_spaces [of "''abcde''" "state_wider\<lparr>width := 60\<rparr>"]
    by (simp add: state_wider_def state0_def r)
qed


text \<open>
  C8 as the specification states it fails: the width has changed from 80 to 100 columns
  since the previous render, and the line of 5 characters after one of 10 is padded with 5
  spaces.
\<close>

theorem pad_output_counterexample:
  "prev_width state_wider \<noteq> int (width state_wider)
   \<and> display_buffer (pad_output state_wider ''abcde'') = Some ''abcde     ''
   \<and> display_buffer (pad_output state_wider ''abcde'') \<noteq> Some ''abcde''"
proof -
  have r: "replicate 5 CHR '' '' = ''     ''" by code_simp
  show ?thesis
    by (simp add: pad_output_def state_wider_def state0_def Let_def pv_strlcat_def r)
qed



subsection \<open>The ETA fields of an unknown size\<close>

lemma deref_format [simp]: "deref (st\<lparr>format := F\<rparr>) p = deref st p"
  by (cases p) (simp_all add: formatstr_of_def split: option.splits)

lemma assemble_format [simp]: "assemble (st\<lparr>format := F\<rparr>) segs buf n = assemble st segs buf n"
  by (induction segs arbitrary: buf n) (simp_all add: Let_def)

lemma static_size_format [simp]: "static_size (st\<lparr>format := F\<rparr>) seg = static_size st seg"
  by (simp add: static_size_def)

lemma assemble_skip_eta:
  "str_eta st = [] \<Longrightarrow> str_fineta st = [] \<Longrightarrow>
   assemble st segs buf n = assemble st (filter (\<lambda>seg. \<not> is_eta_segment seg) segs) buf n"
proof (induction segs arbitrary: buf n)
  case Nil
  then show ?case by simp
next
  case (Cons seg segs)
  show ?case
  proof (cases "is_eta_segment seg")
    case True
    then have "assemble st (seg # segs) buf n = assemble st segs buf n"
      using Cons.prems by (auto simp: is_eta_segment_def Let_def)
    then show ?thesis using True Cons.IH [OF Cons.prems] by simp
  next
    case False
    then show ?thesis using Cons.IH [OF Cons.prems] by (simp add: Let_def)
  qed
qed

lemma static_fold_skip_eta:
  "str_eta st = [] \<Longrightarrow> str_fineta st = [] \<Longrightarrow>
   fold (\<lambda>seg n. n + static_size st seg) segs a =
     fold (\<lambda>seg n. n + static_size st seg) (filter (\<lambda>seg. \<not> is_eta_segment seg) segs) a"
proof (induction segs arbitrary: a)
  case Nil
  then show ?case by simp
next
  case (Cons seg segs)
  show ?case
  proof (cases "is_eta_segment seg")
    case True
    then have "static_size st seg = 0"
      using Cons.prems by (auto simp: is_eta_segment_def static_size_def)
    then show ?thesis using True Cons.IH [OF Cons.prems] by simp
  next
    case False
    then show ?thesis using Cons.IH [OF Cons.prems] by simp
  qed
qed

lemma eta_empty:
  "size_st st \<le> 0 \<Longrightarrow> eta_str K st b t = [] \<and> fineta_str E K st t = []"
  by (simp add: eta_str_def fineta_str_def)

lemma smooth_rate_format:
  "smooth_rate (st\<lparr>format := F\<rparr>) e b = (smooth_rate st e b)\<lparr>format := F\<rparr>"
  by (simp add: smooth_rate_def Let_def)

lemma update_history_format:
  "update_history_avg_rate (st\<lparr>format := F\<rparr>) t e r =
     (update_history_avg_rate st t e r)\<lparr>format := F\<rparr>"
  by (simp add: update_history_avg_rate_def Let_def split: option.splits)

lemma final_rates_format:
  "final_rates (st\<lparr>format := F\<rparr>) e b t = final_rates st e b t"
  by (simp add: final_rates_def)

lemma update_rates_format:
  "update_rates (st\<lparr>format := F\<rparr>) e b t =
     ((fst (update_rates st e b t))\<lparr>format := F\<rparr>, snd (update_rates st e b t))"
  by (simp add: update_rates_def Let_def smooth_rate_format update_history_format
      final_rates_format)

lemma step_percentage_format:
  "step_percentage (st\<lparr>format := F\<rparr>) r t = (step_percentage st r t)\<lparr>format := F\<rparr>"
  by (simp add: step_percentage_def Let_def)

lemma ensure_buffer_format:
  "ensure_buffer E (st\<lparr>format := F\<rparr>) =
     (fst (ensure_buffer E st), (snd (ensure_buffer E st))\<lparr>format := F\<rparr>)"
  by (simp add: ensure_buffer_def Let_def split: option.splits)

lemma field_strs_format:
  "transferred_str E K (st\<lparr>format := F\<rparr>) t = transferred_str E K st t"
  "bufpercent_str K (st\<lparr>format := F\<rparr>) = bufpercent_str K st"
  "timer_str K (st\<lparr>format := F\<rparr>) e = timer_str K st e"
  "rate_str E K (st\<lparr>format := F\<rparr>) r = rate_str E K st r"
  "average_rate_str E K (st\<lparr>format := F\<rparr>) a = average_rate_str E K st a"
  "lastoutput_str E (st\<lparr>format := F\<rparr>) = lastoutput_str E st"
  "eta_str K (st\<lparr>format := F\<rparr>) b t = eta_str K st b t"
  "fineta_str E K (st\<lparr>format := F\<rparr>) t = fineta_str E K st t"
  by (simp_all add: transferred_str_def bufpercent_str_def timer_str_def rate_str_def
      average_rate_str_def lastoutput_str_def eta_str_def fineta_str_def eta_seconds_def)

lemma render_fields_format:
  "render_fields E K (st\<lparr>format := F\<rparr>) e b t r a = (render_fields E K st e b t r a)\<lparr>format := F\<rparr>"
  by (simp add: render_fields_def field_strs_format)

lemma render_progress_format:
  "render_progress K (st\<lparr>format := F\<rparr>) n = (render_progress K st n)\<lparr>format := F\<rparr>"
  by (simp add: render_progress_def Let_def)

lemma pad_output_format:
  "pad_output (st\<lparr>format := F\<rparr>) buf = (pad_output st buf)\<lparr>format := F\<rparr>"
  by (simp add: pad_output_def Let_def split_beta)

lemma numeric_output_format:
  "numeric_output E (st\<lparr>format := F\<rparr>) e t = numeric_output E st e t"
  by (simp add: numeric_output_def Let_def)

lemmas format_commute = update_rates_format step_percentage_format ensure_buffer_format
  render_fields_format render_progress_format pad_output_format numeric_output_format


lemma static_portion_skip_eta:
  assumes "str_eta st = []" "str_fineta st = []"
  shows "static_portion (st\<lparr>format := filter (\<lambda>seg. \<not> is_eta_segment seg) (format st)\<rparr>)
           = static_portion st"
  using static_fold_skip_eta [OF assms, of "format st" 0]
  by (simp add: static_portion_def)

lemma render_fields_strs:
  "str_eta (render_fields E K st e b t r a) = eta_str K st b t"
  "str_fineta (render_fields E K st e b t r a) = fineta_str E K st t"
  "format (render_fields E K st e b t r a) = format st"
  "format (render_progress K st n) = format st"
  "format (snd (ensure_buffer E st)) = format st"
  "format (step_percentage st r t) = format st"
  "format (fst (update_rates st e b t)) = format st"
  by (simp_all add: render_fields_def render_progress_def ensure_buffer_def step_percentage_def
      update_rates_def update_history_avg_rate_def smooth_rate_def Let_def split: option.splits)

lemma pv__format_strs_empty:
  assumes "size_st st \<le> 0" "0 \<le> t" "\<not> numeric st" "fst (pv__format E K st e b t) \<noteq> None"
  shows "str_eta (snd (pv__format E K st e b t)) = []"
    and "str_fineta (snd (pv__format E K st e b t)) = []"
proof -
  let ?u = "update_rates st e b t"
  let ?st3 = "snd (ensure_buffer E (step_percentage (fst ?u) (fst (snd (snd ?u))) t))"
  have sz: "size_st ?st3 \<le> 0" using assms(1) by (simp add: frames)
  have n: "numeric ?st3 = numeric st" by (simp add: frames)
  have ok: "fst (ensure_buffer E (step_percentage (fst ?u) (fst (snd (snd ?u))) t))"
    using pv__format_None [OF assms(2,4)] .
  show "str_eta (snd (pv__format E K st e b t)) = []"
    using assms(2,3) ok n eta_empty [OF sz]
    by (simp add: pv__format_def Let_def split_beta frames render_fields_strs)
  show "str_fineta (snd (pv__format E K st e b t)) = []"
    using assms(2,3) ok n eta_empty [OF sz]
    by (simp add: pv__format_def Let_def split_beta frames render_fields_strs)
qed

lemma pv__format_skip_eta:
  assumes "size_st st \<le> 0"
  shows "fst (pv__format E K (st\<lparr>format := filter (\<lambda>seg. \<not> is_eta_segment seg) (format st)\<rparr>) e b t)
           = fst (pv__format E K st e b t)"
proof (cases "t < 0")
  case True
  then show ?thesis by (simp add: pv__format_def)
next
  case False
  let ?F = "filter (\<lambda>seg. \<not> is_eta_segment seg) (format st)"
  let ?u = "update_rates st e b t"
  let ?st2 = "step_percentage (fst ?u) (fst (snd (snd ?u))) t"
  let ?st3 = "snd (ensure_buffer E ?st2)"
  let ?st4 = "render_fields E K ?st3 (fst (snd ?u)) b t (fst (snd (snd ?u))) (snd (snd (snd ?u)))"
  have sz: "size_st ?st3 \<le> 0" using assms by (simp add: frames)
  have e4: "str_eta ?st4 = []" "str_fineta ?st4 = []"
    using eta_empty [OF sz] by (simp_all add: render_fields_strs)
  have f4: "format ?st4 = format st" by (simp add: render_fields_strs)
  have sp: "static_portion (?st4\<lparr>format := ?F\<rparr>) = static_portion ?st4"
    using static_portion_skip_eta [OF e4] by (simp add: f4)
  let ?st5 = "render_progress K ?st4 (static_portion ?st4)"
  have e5: "str_eta ?st5 = []" "str_fineta ?st5 = []" using e4 by (simp_all add: frames)
  have f5: "format ?st5 = format st" by (simp add: render_fields_strs)
  have as: "assemble ?st5 ?F [] 0 = assemble ?st5 (format ?st5) [] 0"
    using assemble_skip_eta [OF e5, of "format ?st5" "[]" 0] by (simp add: f5)
  have db: "display_buffer (pad_output s buf) = display_buffer (pad_output (s\<lparr>format := ?F\<rparr>) buf)"
    for s buf by (simp add: pad_output_format)
  show ?thesis
    using False
    by (simp add: pv__format_def Let_def split_beta format_commute sp as pad_output_def)
qed


text \<open>
  C10.  With an unknown size (\<open>size \<le> 0\<close>), a call that assembles a line leaves the
  strings of both ETA fields empty, and the line that any call returns is the one it
  returns when the segments of \<^verbatim>\<open>%e\<close> and \<^verbatim>\<open>%I\<close> are taken out of the format:
  they add no character to it.
\<close>

theorem pv__format_unknown_size_eta:
  assumes "size_st st \<le> 0"
  shows "(0 \<le> total_bytes \<and> \<not> numeric st
            \<and> fst (pv__format E K st elapsed_sec bytes_since_last total_bytes) \<noteq> None \<longrightarrow>
          str_eta (snd (pv__format E K st elapsed_sec bytes_since_last total_bytes)) = []
          \<and> str_fineta (snd (pv__format E K st elapsed_sec bytes_since_last total_bytes)) = [])
         \<and> fst (pv__format E K st elapsed_sec bytes_since_last total_bytes) =
             fst (pv__format E K
                    (st\<lparr>format := filter (\<lambda>seg. \<not> is_eta_segment seg) (format st)\<rparr>)
                    elapsed_sec bytes_since_last total_bytes)"
  using pv__format_strs_empty [OF assms, of total_bytes E K elapsed_sec bytes_since_last]
    pv__format_skip_eta [OF assms, of E K elapsed_sec bytes_since_last total_bytes]
  by simp

theorem pv__format_unknown_size_eta_witness:
  "str_eta (snd (pv__format libc0 sizes0 (state_eta\<lparr>size_st := 0\<rparr>) 1 500 500)) = []
   \<and> str_fineta (snd (pv__format libc0 sizes0 (state_eta\<lparr>size_st := 0\<rparr>) 1 500 500)) = []
   \<and> fst (pv__format libc0 sizes0 (state_eta\<lparr>size_st := 0\<rparr>) 1 500 500) =
       fst (pv__format libc0 sizes0 (state_eta\<lparr>size_st := 0, format := []\<rparr>) 1 500 500)"
proof -
  have r: "fst (pv__format libc0 sizes0 (state_eta\<lparr>size_st := 0\<rparr>) 1 500 500) \<noteq> None"
    by (rule pv__format_returns) (simp_all add: libc0_def)
  have c: "size_st (state_eta\<lparr>size_st := 0\<rparr>) \<le> 0" "\<not> numeric (state_eta\<lparr>size_st := 0\<rparr>)"
    "filter (\<lambda>seg. \<not> is_eta_segment seg) (format state_eta) = []"
    by (simp_all add: state_eta_def state0_def is_eta_segment_def)
  show ?thesis
    using pv__format_unknown_size_eta [OF c(1), of 500 libc0 sizes0 1 500] r c(2)
    by (simp add: c(3))
qed


subsection \<open>The format compiler\<close>

lemma scan_num_pos:
  "strpos \<le> length fs \<Longrightarrow>
   strpos \<le> snd (scan_num fs strpos n) \<and> snd (scan_num fs strpos n) \<le> length fs"
proof (induction fs strpos n rule: scan_num.induct)
  case (1 formatstr strpos num)
  show ?case
  proof (cases "strpos < length formatstr \<and> isdigit (formatstr ! strpos)")
    case True
    then have "strpos + 1 \<le> length formatstr" by simp
    note IH = "1.IH" [OF True this]
    have "scan_num formatstr strpos num =
            scan_num formatstr (strpos + 1)
              ((num * 10 mod 2 ^ 32 + digit_value (formatstr ! strpos)) mod 2 ^ 32)"
      by (subst scan_num.simps) (simp only: True if_True simp_thms)
    then show ?thesis using IH by simp
  next
    case False
    have "scan_num formatstr strpos num = (num, strpos)"
      by (subst scan_num.simps) (simp only: False if_False simp_thms)
    then show ?thesis using "1.prems" by simp
  qed
qed

lemma scan_num_stop:
  "\<not> (strpos < length fs \<and> isdigit (fs ! strpos)) \<Longrightarrow> scan_num fs strpos n = (n, strpos)"
  by (subst scan_num.simps) (simp only: if_False)

lemma c_byte_nonNUL: "c_byte fs i \<noteq> NUL \<Longrightarrow> i < length fs"
  by (auto simp: c_byte_def split: if_splits)

lemma format_directive_fst:
  "fst (format_directive K fs strpos st) =
     (let p2 = snd (scan_num fs (strpos + 1) 0); c = c_byte fs p2
      in if c = NUL then p2 - 1 else p2)"
proof -
  have "1 \<le> snd (scan_num fs (strpos + 1) 0)"
  proof (cases "strpos + 1 \<le> length fs")
    case True
    then show ?thesis using scan_num_pos [OF True, of 0] by simp
  next
    case False
    then show ?thesis by (simp add: scan_num_stop)
  qed
  then show ?thesis
    by (simp add: format_directive_def Let_def split_beta NUL_def)
qed

lemma format_directive_pos:
  assumes "strpos < length fs"
  shows "fst (format_directive K fs strpos st) + 1 \<le> length fs"
proof -
  let ?p2 = "snd (scan_num fs (strpos + 1) 0)"
  have p2: "strpos + 1 \<le> ?p2" "?p2 \<le> length fs"
    using scan_num_pos [of "strpos + 1" fs 0] assms by simp_all
  show ?thesis
  proof (cases "c_byte fs ?p2 = NUL")
    case True
    then show ?thesis using p2 by (simp add: format_directive_fst Let_def)
  next
    case False
    then have "?p2 < length fs" by (rule c_byte_nonNUL)
    then show ?thesis using False by (simp add: format_directive_fst Let_def)
  qed
qed

lemma format_literal_pos:
  assumes "strpos < length fs" "fs ! strpos \<noteq> CHR ''%''"
  shows "fst (format_literal fs strpos st) + 1 \<le> length fs"
proof -
  have d: "drop strpos fs = fs ! strpos # drop (Suc strpos) fs"
    using assms(1) by (simp add: Cons_nth_drop_Suc)
  show ?thesis
  proof (cases "strchr (drop strpos fs) CHR ''%''")
    case None
    then show ?thesis using assms(1) by (simp add: format_literal_def Let_def)
  next
    case (Some n)
    then have n: "n = length (takeWhile (\<lambda>x. x \<noteq> CHR ''%'') (drop strpos fs))"
      by (simp add: strchr_def split: if_splits)
    have "1 \<le> n" unfolding n d using assms(2) by simp
    moreover have "n \<le> length (drop strpos fs)" unfolding n by (rule length_takeWhile_le)
    ultimately show ?thesis using Some assms(1) by (simp add: format_literal_def Let_def)
  qed
qed

lemma format_loop_total:
  "strpos \<le> length fs \<Longrightarrow> segment \<le> 99 \<Longrightarrow> 99 < PV_FORMAT_ARRAY_MAX K \<Longrightarrow>
   format_loop K fs strpos segment st \<noteq> None"
proof (induction K fs strpos segment st rule: format_loop.induct)
  case (1 K formatstr strpos segment st)
  show ?case
  proof (cases "c_byte formatstr strpos \<noteq> NUL \<and> segment < 99")
    case False
    have "format_loop K formatstr strpos segment st =
            (if segment < PV_FORMAT_ARRAY_MAX K then Some st else None)"
      using "1.prems"(1)
      by (subst format_loop.simps) (simp only: False if_False not_less [symmetric] simp_thms)
    then show ?thesis using "1.prems" by simp
  next
    case True
    then have lt: "strpos < length formatstr" by (simp add: c_byte_nonNUL)
    define r where "r = (if CHR ''%'' = c_byte formatstr strpos
                then format_directive K formatstr strpos st
                else format_literal formatstr strpos st)"
    have pos: "fst r + 1 \<le> length formatstr"
    proof (cases "CHR ''%'' = c_byte formatstr strpos")
      case True
      then show ?thesis using format_directive_pos [OF lt] by (simp add: r_def)
    next
      case False
      then have "formatstr ! strpos \<noteq> CHR ''%''" using lt by (simp add: c_byte_def)
      then show ?thesis using format_literal_pos [OF lt] False by (simp add: r_def)
    qed
    have "format_loop K formatstr (fst r + 1) (segment + 1) (snd r) \<noteq> None"
    proof (rule "1.IH")
      show "\<not> length formatstr < strpos" using lt by simp
      show "c_byte formatstr strpos \<noteq> NUL \<and> segment < 99" using True .
      show "(fst r, snd r) = (if CHR ''%'' = c_byte formatstr strpos
                then format_directive K formatstr strpos st
                else format_literal formatstr strpos st)" by (simp add: r_def)
      show "fst r + 1 \<le> length formatstr" using pos .
      show "segment + 1 \<le> 99" using True by simp
      show "99 < PV_FORMAT_ARRAY_MAX K" using "1.prems"(3) .
    qed (rule refl)
    moreover have nl: "\<not> length formatstr < strpos" using lt by simp
    have "format_loop K formatstr strpos segment st =
        format_loop K formatstr (fst r + 1) (segment + 1) (snd r)"
      by (subst format_loop.simps)
        (simp only: True nl if_True r_def [symmetric] split_beta Let_def if_False simp_thms)
    ultimately show ?thesis by simp
  qed
qed

lemma pv__format_init_total:
  "99 < PV_FORMAT_ARRAY_MAX K \<Longrightarrow> pv__format_init K st \<noteq> None"
  by (simp add: pv__format_init_def Let_def format_loop_total split: option.splits)


lemma format_directive_unknown:
  assumes "strpos + 1 < length fs" "\<not> isdigit (fs ! (strpos + 1))"
    "fs ! (strpos + 1) \<notin> set known_directives" "fs ! (strpos + 1) \<noteq> NUL"
  shows "format_directive K fs strpos st = (strpos + 1, add_segment (Formatstr strpos) 2 st)"
proof -
  have sc: "scan_num fs (Suc strpos) 0 = (0, Suc strpos)"
    using assms(2) by (intro scan_num_stop) simp
  have c: "c_byte fs (Suc strpos) = fs ! (Suc strpos)" using assms(1) by (simp add: c_byte_def)
  show ?thesis
    using assms(3,4)
    by (simp add: format_directive_def sc c Let_def known_directives_def)
qed

lemma format_directive_end:
  assumes "strpos + 1 = length fs"
  shows "format_directive K fs strpos st = (strpos, add_segment (Formatstr strpos) 1 st)"
proof -
  have sc: "scan_num fs (Suc strpos) 0 = (0, Suc strpos)"
    using assms by (intro scan_num_stop) simp
  have c: "c_byte fs (Suc strpos) = NUL" using assms by (simp add: c_byte_def)
  show ?thesis
    by (simp add: format_directive_def sc c Let_def) (simp add: NUL_def)
qed

lemma format_loop_directive:
  assumes "strpos < length fs" "fs ! strpos = CHR ''%''" "segment < 99"
  shows "format_loop K fs strpos segment st =
           format_loop K fs (fst (format_directive K fs strpos st) + 1) (segment + 1)
             (snd (format_directive K fs strpos st))"
proof -
  have c: "c_byte fs strpos = CHR ''%''" using assms(1,2) by (simp add: c_byte_def)
  have g: "CHR ''%'' \<noteq> NUL" by (simp add: NUL_def)
  have nl: "\<not> length fs < strpos" using assms(1) by simp
  show ?thesis
    by (subst format_loop.simps)
      (simp only: g assms(3) nl c if_True if_False split_beta Let_def simp_thms)
qed

lemma format_loop_end:
  assumes "segment < PV_FORMAT_ARRAY_MAX K"
  shows "format_loop K fs (length fs) segment st = Some st"
proof -
  have c: "c_byte fs (length fs) = NUL" by (simp add: c_byte_def)
  show ?thesis
    using assms by (subst format_loop.simps) (simp add: c)
qed

lemma pv__format_init_example:
  "map_option format (pv__format_init sizes0 (state0\<lparr>format_string := Some ''ab%tcd''\<rparr>)) =
     Some (format state_line)"
  by (simp add: pv__format_init_def Let_def formatstr_of_def state0_def state_line_def sizes0_def
      format_loop.simps format_directive_def format_literal_def scan_num.simps c_byte_def NUL_def
      strchr_def isdigit_def add_segment_def use_component_def)

lemma format_directive_frame:
  "str_name (snd (format_directive K fs strpos st)) = str_name st"
  "format_string (snd (format_directive K fs strpos st)) = format_string st"
  "default_format (snd (format_directive K fs strpos st)) = default_format st"
  by (simp_all add: format_directive_def Let_def split_beta add_segment_def use_component_def)

lemma format_literal_frame:
  "str_name (snd (format_literal fs strpos st)) = str_name st"
  "format_string (snd (format_literal fs strpos st)) = format_string st"
  "default_format (snd (format_literal fs strpos st)) = default_format st"
  by (simp_all add: format_literal_def Let_def add_segment_def)

lemma format_directive_compiled:
  assumes "strpos < length fs" "\<forall>seg\<in>set (format st). seg_compiled fs (str_name st) seg"
  shows "\<forall>seg\<in>set (format (snd (format_directive K fs strpos st))).
           seg_compiled fs (str_name st) seg"
proof -
  let ?p2 = "snd (scan_num fs (strpos + 1) 0)"
  have p2: "strpos + 1 \<le> ?p2" "?p2 \<le> length fs"
    using scan_num_pos [of "strpos + 1" fs 0] assms(1) by simp_all
  have nz: "c_byte fs ?p2 \<noteq> NUL \<Longrightarrow> ?p2 < length fs" by (rule c_byte_nonNUL)
  show ?thesis
    using assms(2) p2 nz
    by (auto simp: format_directive_def Let_def split_beta add_segment_def use_component_def
        seg_compiled_def NUL_def)
qed

lemma format_literal_compiled:
  assumes "strpos < length fs" "fs ! strpos \<noteq> CHR ''%''"
    "\<forall>seg\<in>set (format st). seg_compiled fs (str_name st) seg"
  shows "\<forall>seg\<in>set (format (snd (format_literal fs strpos st))).
           seg_compiled fs (str_name st) seg"
proof -
  have d: "drop strpos fs = fs ! strpos # drop (Suc strpos) fs"
    using assms(1) by (simp add: Cons_nth_drop_Suc)
  define n where "n = (case strchr (drop strpos fs) CHR ''%'' of
               None \<Rightarrow> length (drop strpos fs) | Some n \<Rightarrow> n)"
  have n: "1 \<le> n \<and> n \<le> length (drop strpos fs)"
  proof (cases "strchr (drop strpos fs) CHR ''%''")
    case None
    then show ?thesis using assms(1) by (simp add: n_def)
  next
    case (Some m)
    then have m: "m = length (takeWhile (\<lambda>x. x \<noteq> CHR ''%'') (drop strpos fs))"
      by (simp add: strchr_def split: if_splits)
    have "1 \<le> m" unfolding m d using assms(2) by simp
    moreover have "m \<le> length (drop strpos fs)" unfolding m by (rule length_takeWhile_le)
    ultimately show ?thesis using Some by (simp add: n_def)
  qed
  have "format (snd (format_literal fs strpos st)) =
          format st @ [\<lparr>seg_string = Formatstr strpos, seg_length = int n\<rparr>]"
    by (simp add: format_literal_def Let_def add_segment_def n_def)
  then show ?thesis using assms(1,3) n by (auto simp: seg_compiled_def)
qed


lemma format_loop_compiled:
  "format_loop K fs strpos segment st = Some st' \<Longrightarrow> strpos \<le> length fs \<Longrightarrow>
   \<forall>seg\<in>set (format st). seg_compiled fs (str_name st) seg \<Longrightarrow>
   (\<forall>seg\<in>set (format st'). seg_compiled fs (str_name st) seg)
   \<and> str_name st' = str_name st \<and> format_string st' = format_string st
   \<and> default_format st' = default_format st"
proof (induction K fs strpos segment st rule: format_loop.induct)
  case (1 K formatstr strpos segment st)
  show ?case
  proof (cases "c_byte formatstr strpos \<noteq> NUL \<and> segment < 99")
    case False
    have "format_loop K formatstr strpos segment st =
            (if segment < PV_FORMAT_ARRAY_MAX K then Some st else None)"
      using "1.prems"(2)
      by (subst format_loop.simps) (simp only: False if_False not_less [symmetric] simp_thms)
    then have "st' = st" using "1.prems"(1) by (simp split: if_splits)
    then show ?thesis using "1.prems"(3) by simp
  next
    case True
    then have lt: "strpos < length formatstr" by (simp add: c_byte_nonNUL)
    define r where "r = (if CHR ''%'' = c_byte formatstr strpos
                then format_directive K formatstr strpos st
                else format_literal formatstr strpos st)"
    have pos: "fst r + 1 \<le> length formatstr"
    proof (cases "CHR ''%'' = c_byte formatstr strpos")
      case True
      then show ?thesis using format_directive_pos [OF lt] by (simp add: r_def)
    next
      case False
      then have "formatstr ! strpos \<noteq> CHR ''%''" using lt by (simp add: c_byte_def)
      then show ?thesis using format_literal_pos [OF lt] False by (simp add: r_def)
    qed
    have fr: "str_name (snd r) = str_name st" "format_string (snd r) = format_string st"
      "default_format (snd r) = default_format st"
      by (simp_all add: r_def format_directive_frame format_literal_frame)
    have comp: "\<forall>seg\<in>set (format (snd r)). seg_compiled formatstr (str_name (snd r)) seg"
    proof (cases "CHR ''%'' = c_byte formatstr strpos")
      case True
      then show ?thesis
        using format_directive_compiled [OF lt "1.prems"(3), of K]
        by (simp add: r_def format_directive_frame)
    next
      case False
      then have "formatstr ! strpos \<noteq> CHR ''%''" using lt by (simp add: c_byte_def)
      from format_literal_compiled [OF lt this "1.prems"(3)] False
      show ?thesis by (simp add: r_def format_literal_frame)
    qed
    have nl: "\<not> length formatstr < strpos" using lt by simp
    have step: "format_loop K formatstr strpos segment st =
        format_loop K formatstr (fst r + 1) (segment + 1) (snd r)"
      by (subst format_loop.simps)
        (simp only: True nl if_True r_def [symmetric] split_beta Let_def if_False simp_thms)
    have "(\<forall>seg\<in>set (format st'). seg_compiled formatstr (str_name (snd r)) seg)
      \<and> str_name st' = str_name (snd r) \<and> format_string st' = format_string (snd r)
      \<and> default_format st' = default_format (snd r)"
    proof (rule "1.IH")
      show "\<not> length formatstr < strpos" using nl .
      show "c_byte formatstr strpos \<noteq> NUL \<and> segment < 99" using True .
      show "(fst r, snd r) = (if CHR ''%'' = c_byte formatstr strpos
                then format_directive K formatstr strpos st
                else format_literal formatstr strpos st)" by (simp add: r_def)
      show "format_loop K formatstr (fst r + 1) (segment + 1) (snd r) = Some st'"
        using "1.prems"(1) step by simp
      show "fst r + 1 \<le> length formatstr" using pos .
      show "\<forall>seg\<in>set (format (snd r)). seg_compiled formatstr (str_name (snd r)) seg"
        using comp .
    qed (rule refl)
    then show ?thesis by (simp add: fr)
  qed
qed

lemma seg_compiled_ok:
  "seg_compiled (formatstr_of st) (str_name st) seg \<Longrightarrow> seg_ok st seg"
  by (cases "seg_string seg") (auto simp: seg_compiled_def seg_ok_def)

lemma pv__format_init_seg_ok:
  assumes "pv__format_init K st = Some st'"
  shows "\<forall>seg\<in>set (format st'). seg_ok st' seg"
proof -
  define st1 where "st1 = st\<lparr>str_name := [], str_transferred := [], str_timer := [], str_rate := [],
                  str_average_rate := [], str_progress := [], str_eta := [], format := []\<rparr>"
  define st2 where "st2 = (case name st1 of
                  Some n \<Rightarrow>
                    st1\<lparr>str_name :=
                         snprintf (PV_SIZEOF_STR_NAME K)
                           (replicate (9 - length (take 500 n)) CHR '' '' @ take 500 n @ '':'')\<rparr>
                | None \<Rightarrow> st1)"
  define st3 where "st3 = st2\<lparr>components_used := {}\<rparr>"
  have f2: "format st2 = []" "format_string st3 = format_string st2"
    "default_format st3 = default_format st2"
    by (simp_all add: st2_def st1_def st3_def split: option.splits)
  have l: "format_loop K (formatstr_of st2) 0 0 st3 = Some st'"
    using assms unfolding pv__format_init_def Let_def st3_def st2_def st1_def .
  have "format st3 = []" by (simp add: st3_def f2)
  then have "\<forall>seg\<in>set (format st3). seg_compiled (formatstr_of st2) (str_name st3) seg" by simp
  from format_loop_compiled [OF l _ this]
  have c: "\<forall>seg\<in>set (format st'). seg_compiled (formatstr_of st2) (str_name st3) seg"
    and e: "str_name st' = str_name st3" "format_string st' = format_string st3"
      "default_format st' = default_format st3"
    by simp_all
  have "formatstr_of st' = formatstr_of st2"
    by (simp add: formatstr_of_def e f2 split: option.splits)
  then show ?thesis using c e(1) seg_compiled_ok [of st'] by simp
qed

lemma pv__format_buffer_ok:
  assumes "buffer_ok st"
  shows "buffer_ok (snd (pv__format E K st e b t))"
proof (cases "t < 0")
  case True
  then show ?thesis by (simp add: pv__format_def buffer_ok_def)
next
  case False
  let ?u = "update_rates st e b t"
  let ?st2 = "step_percentage (fst ?u) (fst (snd (snd ?u))) t"
  have b2: "buffer_ok ?st2" using assms by (simp add: buffer_ok_def buffer_frame)
  have b3: "buffer_ok (snd (ensure_buffer E ?st2))"
    using b2 by (auto simp: ensure_buffer_def buffer_ok_def Let_def split: option.splits)
  have s3: "fst (ensure_buffer E ?st2) \<Longrightarrow> display_buffer (snd (ensure_buffer E ?st2)) \<noteq> None"
    by (auto simp: ensure_buffer_def Let_def split: option.splits if_splits)
  show ?thesis
    using False b3 s3
    by (auto simp: pv__format_def Let_def split_beta buffer_ok_def pad_output_def buffer_frame)
qed

lemma pv__format_init_examples:
  "map_option format (pv__format_init sizes0 (state0\<lparr>format_string := Some ''%e''\<rparr>)) =
     Some (format state_eta)"
  "map_option format (pv__format_init sizes0 (state0\<lparr>format_string := Some ''%p''\<rparr>)) =
     Some (format state_bar)"
  by (simp_all add: pv__format_init_def Let_def formatstr_of_def state0_def state_eta_def
      state_bar_def sizes0_def format_loop.simps format_directive_def scan_num.simps c_byte_def
      NUL_def isdigit_def add_segment_def use_component_def)

text \<open>
  Where the segment loop is at a \<^verbatim>\<open>%\<close> (with fewer than 99 segments so far, the
  bound of the loop) that is directly followed by a byte that is no digit and has no case
  in the switch, it adds a segment of constant text whose two characters are the
  \<^verbatim>\<open>%\<close> and that byte, and goes on behind them.  At a \<^verbatim>\<open>%\<close> that is the last
  byte of the string it adds a segment whose text is the single \<^verbatim>\<open>%\<close>, and ends.
  The compilation of any format string ends with a result: it reads no byte beyond the
  terminator of the string and writes no entry beyond the format array, provided the array
  has the 100 entries that the bound of the loop needs.
\<close>

lemma format_loop_percent_literals:
  "(segment < 99 \<and> strpos + 1 < length formatstr \<and> formatstr ! strpos = CHR ''%''
      \<and> c = formatstr ! (strpos + 1) \<and> \<not> isdigit c \<and> c \<notin> set known_directives \<and> c \<noteq> NUL \<longrightarrow>
        format_loop K formatstr strpos segment st =
          format_loop K formatstr (strpos + 2) (segment + 1)
            (add_segment (Formatstr strpos) 2 st)
        \<and> seg_text (st\<lparr>format_string := Some formatstr\<rparr>)
              \<lparr>seg_string = Formatstr strpos, seg_length = 2\<rparr> = [CHR ''%'', c])
   \<and> (segment < 99 \<and> strpos + 1 = length formatstr \<and> formatstr ! strpos = CHR ''%''
        \<and> 99 < PV_FORMAT_ARRAY_MAX K \<longrightarrow>
        format_loop K formatstr strpos segment st =
          Some (add_segment (Formatstr strpos) 1 st)
        \<and> seg_text (st\<lparr>format_string := Some formatstr\<rparr>)
              \<lparr>seg_string = Formatstr strpos, seg_length = 1\<rparr> = ''%'')
   \<and> (99 < PV_FORMAT_ARRAY_MAX K \<longrightarrow> (\<exists>st'. pv__format_init K st = Some st'))"
proof (intro conjI impI)
  assume a: "segment < 99 \<and> strpos + 1 < length formatstr \<and> formatstr ! strpos = CHR ''%''
      \<and> c = formatstr ! (strpos + 1) \<and> \<not> isdigit c \<and> c \<notin> set known_directives \<and> c \<noteq> NUL"
  then have lt: "strpos < length formatstr" by simp
  have d: "format_directive K formatstr strpos st =
             (strpos + 1, add_segment (Formatstr strpos) 2 st)"
    using a by (intro format_directive_unknown) auto
  show "format_loop K formatstr strpos segment st =
          format_loop K formatstr (strpos + 2) (segment + 1)
            (add_segment (Formatstr strpos) 2 st)"
    using format_loop_directive [OF lt, of segment K st] a by (simp add: d)
  have "drop strpos formatstr = formatstr ! strpos # drop (Suc strpos) formatstr"
    using lt by (rule Cons_nth_drop_Suc [symmetric])
  moreover have "drop (Suc strpos) formatstr =
      formatstr ! (Suc strpos) # drop (Suc (Suc strpos)) formatstr"
    using a by (intro Cons_nth_drop_Suc [symmetric]) simp
  ultimately have "drop strpos formatstr = formatstr ! strpos # formatstr ! (strpos + 1)
          # drop (strpos + 2) formatstr"
    by simp
  then show "seg_text (st\<lparr>format_string := Some formatstr\<rparr>)
              \<lparr>seg_string = Formatstr strpos, seg_length = 2\<rparr> = [CHR ''%'', c]"
    using a by (simp add: seg_text_def formatstr_of_def)
next
  assume a: "segment < 99 \<and> strpos + 1 = length formatstr \<and> formatstr ! strpos = CHR ''%''
        \<and> 99 < PV_FORMAT_ARRAY_MAX K"
  then have lt: "strpos < length formatstr" by simp
  have d: "format_directive K formatstr strpos st = (strpos, add_segment (Formatstr strpos) 1 st)"
    using a by (intro format_directive_end) simp
  have "format_loop K formatstr strpos segment st =
          format_loop K formatstr (length formatstr) (segment + 1)
            (add_segment (Formatstr strpos) 1 st)"
    using format_loop_directive [OF lt, of segment K st] a by (simp add: d)
  also have "\<dots> = Some (add_segment (Formatstr strpos) 1 st)"
    using a by (intro format_loop_end) simp
  finally show "format_loop K formatstr strpos segment st =
          Some (add_segment (Formatstr strpos) 1 st)" .
  have "drop strpos formatstr = [formatstr ! strpos]"
    using a lt by (metis Cons_nth_drop_Suc Suc_eq_plus1 drop_all order_refl)
  then show "seg_text (st\<lparr>format_string := Some formatstr\<rparr>)
              \<lparr>seg_string = Formatstr strpos, seg_length = 1\<rparr> = ''%''"
    using a by (simp add: seg_text_def formatstr_of_def)
next
  assume "99 < PV_FORMAT_ARRAY_MAX K"
  then show "\<exists>st'. pv__format_init K st = Some st'"
    using pv__format_init_total [of K st] by auto
qed


text \<open>
  C9.  The code keeps its word for a \<^verbatim>\<open>%\<close> that is followed at once by a letter
  without a case (\<^verbatim>\<open>%z\<close> is compiled to the constant text \<^verbatim>\<open>%z\<close>, as its comment
  says), but not when a width stands between them.  The digits of the width are read
  first, and the default case and the case of the terminator step back by one byte only,
  to the last digit and not to the \<^verbatim>\<open>%\<close>.  So \<^verbatim>\<open>%5z\<close> is compiled to the
  two characters \<^verbatim>\<open>5z\<close>, and \<^verbatim>\<open>%12\<close> at the end of the string to the single
  character \<^verbatim>\<open>2\<close>; these are the lines that \<^verbatim>\<open>pv__format\<close> then returns.
\<close>

theorem pv__format_init_width_unknown:
  "map_option format (pv__format_init sizes0 (state0\<lparr>format_string := Some ''%z''\<rparr>))
     = Some [\<lparr>seg_string = Formatstr 0, seg_length = 2\<rparr>]
   \<and> fst (pv__format libc0 sizes0
            (the (pv__format_init sizes0 (state0\<lparr>format_string := Some ''%z''\<rparr>))) 1 0 0)
     = Some ''%z''
   \<and> map_option format (pv__format_init sizes0 (state0\<lparr>format_string := Some ''%5z''\<rparr>))
     = Some [\<lparr>seg_string = Formatstr 1, seg_length = 2\<rparr>]
   \<and> fst (pv__format libc0 sizes0
            (the (pv__format_init sizes0 (state0\<lparr>format_string := Some ''%5z''\<rparr>))) 1 0 0)
     = Some ''5z''
   \<and> map_option format (pv__format_init sizes0 (state0\<lparr>format_string := Some ''%12''\<rparr>))
     = Some [\<lparr>seg_string = Formatstr 2, seg_length = 1\<rparr>]
   \<and> fst (pv__format libc0 sizes0
            (the (pv__format_init sizes0 (state0\<lparr>format_string := Some ''%12''\<rparr>))) 1 0 0)
     = Some ''2''"
proof -
  have init:
    "pv__format_init sizes0 (state0\<lparr>format_string := Some ''%z''\<rparr>)
       = Some (state0\<lparr>format_string := Some ''%z'',
                      format := [\<lparr>seg_string = Formatstr 0, seg_length = 2\<rparr>]\<rparr>)"
    "pv__format_init sizes0 (state0\<lparr>format_string := Some ''%5z''\<rparr>)
       = Some (state0\<lparr>format_string := Some ''%5z'',
                      format := [\<lparr>seg_string = Formatstr 1, seg_length = 2\<rparr>]\<rparr>)"
    "pv__format_init sizes0 (state0\<lparr>format_string := Some ''%12''\<rparr>)
       = Some (state0\<lparr>format_string := Some ''%12'',
                      format := [\<lparr>seg_string = Formatstr 2, seg_length = 1\<rparr>]\<rparr>)"
    by (simp_all add: pv__format_init_def Let_def formatstr_of_def state0_def sizes0_def
        format_loop.simps format_directive_def scan_num.simps c_byte_def NUL_def isdigit_def
        add_segment_def)
  show ?thesis
    unfolding init option.sel option.map
    by (simp add: formatstr_of_def state0_def sizes0_def
        pv__format_def update_rates_def smooth_rate_def
        final_rates_def update_history_avg_rate_def step_percentage_def ensure_buffer_def
        libc0_def render_fields_def render_progress_def static_portion_def static_size_def
        pad_output_def split_beta transferred_str_def bufpercent_str_def timer_str_def
        rate_str_def average_rate_str_def lastoutput_str_def eta_str_def fineta_str_def
        pv_strlcat_def strncat_def Let_def)
qed


subsection \<open>The SI scaler\<close>

lemma si_down_stop: "1 \<le> v \<Longrightarrow> si_down r pfx v i p = (v, p)"
  by (cases i) simp_all

lemma si_down_exact:
  "1 < r \<Longrightarrow> 0 < v \<Longrightarrow> 1 \<le> v * r ^ Suc k \<Longrightarrow> v * r ^ k < 1 \<Longrightarrow> Suc k \<le> i \<Longrightarrow>
   si_down r pfx v i p = (v * r ^ Suc k, c_byte pfx (i - Suc k))"
proof (induction k arbitrary: v i p)
  case 0
  then obtain j where i: "i = Suc j" by (cases i) simp_all
  have "v < 1" using 0 by simp
  moreover have "1 \<le> v * r" using 0 by simp
  ultimately show ?case unfolding i by (simp add: si_down_stop)
next
  case (Suc k)
  then obtain j where i: "i = Suc j" by (cases i) simp_all
  have rk: "1 \<le> r ^ Suc k" using Suc.prems(1) by (intro one_le_power) simp
  have "v * 1 \<le> v * r ^ Suc k" using rk Suc.prems(2) by (intro mult_left_mono) simp_all
  then have lt: "v < 1" using Suc.prems(4) by simp
  have a: "1 \<le> v * r * r ^ Suc k" using Suc.prems(3) by (simp add: ac_simps)
  have b: "v * r * r ^ k < 1" using Suc.prems(4) by (simp add: ac_simps)
  have c: "0 < v * r" using Suc.prems(1,2) by simp
  have d: "Suc k \<le> j" using Suc.prems(5) i by simp
  have e: "v * r * r ^ Suc k = v * r ^ Suc (Suc k)" by (simp add: mult.assoc)
  show ?case
    unfolding i using lt Suc.IH [OF Suc.prems(1) c a b d, of "c_byte pfx j"] e by simp
qed

lemma si_down_bottom:
  "1 < r \<Longrightarrow> 0 < v \<Longrightarrow> v * r ^ i < 1 \<Longrightarrow>
   si_down r pfx v i p = (v * r ^ i, if i = 0 then p else c_byte pfx 0)"
proof (induction i arbitrary: v p)
  case 0
  then show ?case by simp
next
  case (Suc j)
  have rk: "1 \<le> r ^ Suc j" using Suc.prems(1) by (intro one_le_power) simp
  have "v * 1 \<le> v * r ^ Suc j" using rk Suc.prems(2) by (intro mult_left_mono) simp_all
  then have lt: "v < 1" using Suc.prems(3) by simp
  have b: "v * r * r ^ j < 1" using Suc.prems(3) by (simp add: ac_simps)
  have c: "0 < v * r" using Suc.prems(1,2) by simp
  show ?case
    using lt Suc.IH [OF Suc.prems(1) c b, of "c_byte pfx j"]
    by (cases j) (simp_all add: mult.assoc)
qed

lemma si_up_exact:
  "1 < r \<Longrightarrow> NUL \<notin> set pfx \<Longrightarrow> i + n < length pfx \<Longrightarrow>
   (\<And>j. j < n \<Longrightarrow> c < v / r ^ j) \<Longrightarrow>
   v / r ^ n \<le> c \<or> i + n + 1 = length pfx \<Longrightarrow>
   si_up r c pfx v i p =
     (v / r ^ n, if v / r ^ n \<le> c then i + n else i + n + 1,
      if n = 0 then p else c_byte pfx (i + n))"
proof (induction n arbitrary: v i p)
  case 0
  show ?case
  proof (cases "v \<le> c")
    case True
    then show ?thesis by (simp add: si_up.simps)
  next
    case False
    then have "i + 1 = length pfx" using 0 by simp
    then have "c_byte pfx (i + 1) = NUL" by (simp add: c_byte_def)
    then show ?thesis using False by (simp add: si_up.simps)
  qed
next
  case (Suc n)
  have gt: "c < v" using Suc.prems(4) [of 0] by simp
  have lt: "i + 1 < length pfx" using Suc.prems(3) by simp
  then have nz: "c_byte pfx (i + 1) \<noteq> NUL"
    using Suc.prems(2) by (auto simp: c_byte_def in_set_conv_nth)
  have step: "si_up r c pfx v i p = si_up r c pfx (v / r) (i + 1) (c_byte pfx (i + 1))"
    using gt nz by (subst si_up.simps) simp
  have a: "i + 1 + n < length pfx" using Suc.prems(3) by simp
  have b: "c < v / r / r ^ j" if "j < n" for j
    using Suc.prems(4) [of "Suc j"] that by (simp add: divide_divide_eq_left)
  have q: "v / r / r ^ n = v / r ^ Suc n" by (simp add: divide_divide_eq_left)
  have d: "v / r / r ^ n \<le> c \<or> i + 1 + n + 1 = length pfx" using Suc.prems(5) q by simp
  show ?case
    unfolding step
    using Suc.IH [OF Suc.prems(1,2) a b d, of "c_byte pfx (i + 1)"] q
    by (cases n) simp_all
qed


lemma power_le_quotient:
  fixes r v :: real
  assumes "1 < r" "r ^ k \<le> v" "j < k"
  shows "r \<le> v / r ^ j"
proof -
  have "r ^ Suc j \<le> r ^ k" using assms(1,3) by (intro power_increasing) simp_all
  then have "r * r ^ j \<le> v" using assms(2) by simp
  moreover have "0 < r ^ j" using assms(1) by simp
  ultimately show ?thesis by (simp add: le_divide_eq)
qed

lemma si_tables:
  "length (if b then pfx_024 else pfx_000) = 17"
  "NUL \<notin> set (if b then pfx_024 else pfx_000)"
  "the (strchr (if b then pfx_024 else pfx_000) CHR '' '') = 8"
  by (auto simp: pfx_000_def pfx_024_def NUL_def strchr_def)

lemma si_unit_eq:
  assumes "i < 17"
  shows "si_unit b i =
          (let p = c_byte (if b then pfx_024 else pfx_000) i
           in if b then [p, if p = CHR '' '' then CHR '' '' else CHR ''i''] else [p])"
  using assms by (simp add: si_unit_def c_byte_def si_tables Let_def)

lemma si_unit_blank: "si_unit b 8 = (if b then ''  '' else '' '')"
  by (simp add: si_unit_def pfx_000_def pfx_024_def Let_def)

lemma pv__si_prefix_loops:
  assumes "v \<noteq> 0"
    and "si_up r (r * 0.97) (if b then pfx_024 else pfx_000) v 8 CHR '' '' = (v1, i1, p1)"
    and "si_down r (if b then pfx_024 else pfx_000) v1 i1 p1
           = (v2, c_byte (if b then pfx_024 else pfx_000) i)"
    and "i < 17"
  shows "pv__si_prefix v r b = (v2, si_unit b i)"
  using assms(1,2,3) unfolding si_unit_eq [OF assms(4)]
  by (simp add: pv__si_prefix_def Let_def si_tables)

lemma pv__si_prefix_above:
  assumes r: "r = 1000 \<or> r = 1024" and k: "k \<le> 8" and lo: "r ^ k \<le> v" and hi: "v < r ^ Suc k"
  shows "pv__si_prefix v r b = (v / r ^ k, si_unit b (8 + k))"
proof -
  let ?pfx = "if b then pfx_024 else pfx_000"
  let ?c = "r * 0.97"
  have r1: "1 < r" and c1: "1 \<le> ?c" and cr: "?c < r" using r by auto
  have rk: "0 < r ^ k" using r1 by simp
  have vpos: "0 < v" using rk lo by simp
  have q1: "1 \<le> v / r ^ k" using lo rk by (simp add: le_divide_eq)
  have qr: "v / r ^ k < r" using hi rk by (simp add: divide_less_eq ac_simps)
  have above: "?c < v / r ^ j" if "j < k" for j
    by (rule less_le_trans [OF cr power_le_quotient [OF r1 lo that]])
  have blank: "c_byte ?pfx 8 = CHR '' ''" by (simp add: c_byte_def pfx_000_def pfx_024_def)
  show ?thesis
  proof (cases "v / r ^ k \<le> ?c")
    case True
    have "8 + k < length ?pfx" using k by (simp add: si_tables)
    from si_up_exact [OF r1 si_tables(2) this above, of "CHR '' ''"] True
    have up: "si_up r ?c ?pfx v 8 CHR '' '' = (v / r ^ k, 8 + k, c_byte ?pfx (8 + k))"
      using blank by (cases k) simp_all
    have down: "si_down r ?pfx (v / r ^ k) (8 + k) (c_byte ?pfx (8 + k))
                  = (v / r ^ k, c_byte ?pfx (8 + k))"
      using q1 by (rule si_down_stop)
    show ?thesis
      using vpos k by (intro pv__si_prefix_loops [OF _ up down]) simp_all
  next
    case False
    then have gt: "?c < v / r ^ k" by simp
    show ?thesis
    proof (cases "k = 8")
      case True
      have len: "8 + k < length ?pfx" using k by (simp add: si_tables)
      have ex: "v / r ^ k \<le> ?c \<or> 8 + k + 1 = length ?pfx" using True by (simp add: si_tables)
      from si_up_exact [OF r1 si_tables(2) len above ex, of "CHR '' ''"] gt True
      have up: "si_up r ?c ?pfx v 8 CHR '' '' = (v / r ^ k, 8 + k + 1, c_byte ?pfx (8 + k))"
        by simp
      have down: "si_down r ?pfx (v / r ^ k) (8 + k + 1) (c_byte ?pfx (8 + k))
                    = (v / r ^ k, c_byte ?pfx (8 + k))"
        using q1 by (rule si_down_stop)
      show ?thesis
        using vpos k by (intro pv__si_prefix_loops [OF _ up down]) simp_all
    next
      case False
      then have k7: "k \<le> 7" using k by simp
      have len: "8 + Suc k < length ?pfx" using k7 by (simp add: si_tables)
      have above': "?c < v / r ^ j" if "j < Suc k" for j
        using that above [of j] gt by (cases "j = k") simp_all
      have q': "v / r ^ Suc k < 1" using hi r1 by (simp add: divide_less_eq)
      have le: "v / r ^ Suc k \<le> ?c" using less_le_trans [OF q' c1] by (rule less_imp_le)
      then have stop: "v / r ^ Suc k \<le> ?c \<or> 8 + Suc k + 1 = length ?pfx" by (rule disjI1)
      from si_up_exact [OF r1 si_tables(2) len above' stop, of "CHR '' ''"] le
      have up: "si_up r ?c ?pfx v 8 CHR '' ''
                  = (v / r ^ Suc k, 8 + Suc k, c_byte ?pfx (8 + Suc k))"
        by simp
      have pos: "0 < v / r ^ Suc k" using vpos r1 by simp
      have undo: "v / r ^ Suc k * r ^ Suc 0 = v / r ^ k" using r1 by simp
      have a: "1 \<le> v / r ^ Suc k * r ^ Suc 0" unfolding undo by (rule q1)
      have b: "v / r ^ Suc k * r ^ 0 < 1" using q' by simp
      from si_down_exact [OF r1 pos a b, of "8 + Suc k" ?pfx "c_byte ?pfx (8 + Suc k)"]
      have down: "si_down r ?pfx (v / r ^ Suc k) (8 + Suc k) (c_byte ?pfx (8 + Suc k))
                    = (v / r ^ k, c_byte ?pfx (8 + k))"
        unfolding undo by simp
      show ?thesis
        using vpos k by (intro pv__si_prefix_loops [OF _ up down]) simp_all
    qed
  qed
qed

lemma pv__si_prefix_top:
  assumes r: "r = 1000 \<or> r = 1024" and lo: "r ^ 9 \<le> v"
  shows "pv__si_prefix v r b = (v / r ^ 8, si_unit b 16)"
proof -
  let ?pfx = "if b then pfx_024 else pfx_000"
  let ?c = "r * 0.97"
  have r1: "1 < r" and c1: "1 \<le> ?c" and cr: "?c < r" using r by auto
  have vpos: "0 < v"
  proof -
    have "0 < r ^ 9" using r1 by simp
    then show ?thesis using lo by (rule less_le_trans)
  qed
  have above: "?c < v / r ^ j" if "j < 8" for j
  proof -
    have "j < 9" using that by simp
    show ?thesis by (rule less_le_trans [OF cr power_le_quotient [OF r1 lo \<open>j < 9\<close>]])
  qed
  have q: "r \<le> v / r ^ 8" by (rule power_le_quotient [OF r1 lo]) simp
  have gt: "\<not> v / r ^ 8 \<le> ?c" using less_le_trans [OF cr q] by (simp only: not_le)
  have len: "8 + 8 < length ?pfx" by (simp add: si_tables)
  have ex: "v / r ^ 8 \<le> ?c \<or> 8 + 8 + 1 = length ?pfx" by (simp add: si_tables)
  from si_up_exact [OF r1 si_tables(2) len above ex, of "CHR '' ''"] gt
  have up: "si_up r ?c ?pfx v 8 CHR '' '' = (v / r ^ 8, 17, c_byte ?pfx 16)"
    by simp
  have "1 \<le> v / r ^ 8" by (rule order_trans [OF less_imp_le [OF r1] q])
  then have down: "si_down r ?pfx (v / r ^ 8) 17 (c_byte ?pfx 16) = (v / r ^ 8, c_byte ?pfx 16)"
    by (rule si_down_stop)
  show ?thesis
    using vpos by (intro pv__si_prefix_loops [OF _ up down]) simp_all
qed

lemma pv__si_prefix_below:
  assumes r: "r = 1000 \<or> r = 1024" and k: "1 \<le> k" "k \<le> 8"
    and lo: "1 \<le> v * r ^ k" and hi: "v * r ^ k < r"
  shows "pv__si_prefix v r b = (v * r ^ k, si_unit b (8 - k))"
proof -
  let ?pfx = "if b then pfx_024 else pfx_000"
  let ?c = "r * 0.97"
  have r1: "1 < r" and c1: "1 \<le> ?c" using r by auto
  obtain m where m: "k = Suc m" using k(1) by (cases k) simp_all
  have vpos: "0 < v"
  proof (rule ccontr)
    assume "\<not> 0 < v"
    then have "v * r ^ k \<le> 0" using r1 by (simp add: mult_le_0_iff)
    then show False using lo by simp
  qed
  have b: "v * r ^ m < 1" using hi r1 unfolding m by (simp add: ac_simps)
  have "1 \<le> r ^ m" using r1 by (intro one_le_power) simp
  then have "v * 1 \<le> v * r ^ m" using vpos by (intro mult_left_mono) simp_all
  then have v1: "v < 1" using b by simp
  have stop: "v / r ^ 0 \<le> ?c \<or> 8 + 0 + 1 = length ?pfx" using v1 c1 by simp
  have le: "v / r ^ 0 \<le> ?c" using v1 c1 by simp
  have len: "8 + 0 < length ?pfx" by (simp add: si_tables)
  from si_up_exact [OF r1 si_tables(2) len _ stop, of "CHR '' ''"] le
  have up: "si_up r ?c ?pfx v 8 CHR '' '' = (v, 8, CHR '' '')" by simp
  have a: "1 \<le> v * r ^ Suc m" using lo unfolding m .
  have "Suc m \<le> 8" using k(2) m by simp
  from si_down_exact [OF r1 vpos a b this, of ?pfx "CHR '' ''"]
  have down: "si_down r ?pfx v 8 CHR '' '' = (v * r ^ k, c_byte ?pfx (8 - k))"
    unfolding m .
  show ?thesis
    using vpos by (intro pv__si_prefix_loops [OF _ up down]) simp_all
qed

lemma pv__si_prefix_bottom:
  assumes r: "r = 1000 \<or> r = 1024" and vpos: "0 < v" and hi: "v * r ^ 8 < 1"
  shows "pv__si_prefix v r b = (v * r ^ 8, si_unit b 0)"
proof -
  let ?pfx = "if b then pfx_024 else pfx_000"
  let ?c = "r * 0.97"
  have r1: "1 < r" and c1: "1 \<le> ?c" using r by auto
  have "1 \<le> r ^ 8" using r1 by (intro one_le_power) simp
  then have "v * 1 \<le> v * r ^ 8" using vpos by (intro mult_left_mono) simp_all
  then have v1: "v < 1" using hi by simp
  have stop: "v / r ^ 0 \<le> ?c \<or> 8 + 0 + 1 = length ?pfx" using v1 c1 by simp
  have le: "v / r ^ 0 \<le> ?c" using v1 c1 by simp
  have len: "8 + 0 < length ?pfx" by (simp add: si_tables)
  from si_up_exact [OF r1 si_tables(2) len _ stop, of "CHR '' ''"] le
  have up: "si_up r ?c ?pfx v 8 CHR '' '' = (v, 8, CHR '' '')" by simp
  from si_down_bottom [OF r1 vpos hi, of ?pfx "CHR '' ''"]
  have down: "si_down r ?pfx v 8 CHR '' '' = (v * r ^ 8, c_byte ?pfx 0)" by simp
  show ?thesis
    using vpos by (intro pv__si_prefix_loops [OF _ up down]) simp_all
qed

text \<open>
  C5, as the code has it, for the ratios 1000 and 1024.  The magnitude 0 gives 0 and a
  blank prefix.  A magnitude \<open>v\<close> from \<open>r ^ k\<close> up to, but not including,
  \<open>r ^ (k + 1)\<close>, with \<open>k\<close> from 0 to 8, gives \<open>v / r ^ k\<close> with the prefix
  \<open>k\<close> places above the blank in the table; a magnitude whose product with \<open>r ^ k\<close>,
  \<open>k\<close> from 1 to 8, lies from 1 up to, but not including, \<open>r\<close> gives that product
  with the prefix \<open>k\<close> places below the blank.  The scaled value then lies from 1.0 up to,
  but not including, \<open>r\<close> itself: the first loop divides while the value exceeds
  \<open>r * 0.97\<close>, and the second loop multiplies a quotient below 1.0 back, so a value
  between \<open>r * 0.97\<close> and \<open>r\<close> comes back as it is, with the blank prefix.  Beyond the
  ends of the table the loops stop at its last entries: from \<open>r ^ 9\<close> on the result is
  \<open>v / r ^ 8\<close> with the top prefix, and a positive magnitude below \<open>r\<close> to the power
  \<open>-8\<close> gives \<open>v * r ^ 8\<close> with the bottom prefix.
\<close>

theorem pv__si_prefix_scaling:
  assumes "r = 1000 \<or> r = 1024"
  shows "pv__si_prefix 0 r b = (0, if b then ''  '' else '' '')
         \<and> (k \<le> 8 \<and> r ^ k \<le> v \<and> v < r ^ (k + 1) \<longrightarrow>
              pv__si_prefix v r b = (v / r ^ k, si_unit b (8 + k))
              \<and> 1 \<le> v / r ^ k \<and> v / r ^ k < r)
         \<and> (1 \<le> k \<and> k \<le> 8 \<and> 1 \<le> v * r ^ k \<and> v * r ^ k < r \<longrightarrow>
              pv__si_prefix v r b = (v * r ^ k, si_unit b (8 - k)))
         \<and> (r * 0.97 < v \<and> v < r \<longrightarrow>
              pv__si_prefix v r b = (v, if b then ''  '' else '' ''))
         \<and> (r ^ 9 \<le> v \<longrightarrow> pv__si_prefix v r b = (v / r ^ 8, si_unit b 16))
         \<and> (0 < v \<and> v * r ^ 8 < 1 \<longrightarrow> pv__si_prefix v r b = (v * r ^ 8, si_unit b 0))"
proof (intro conjI impI)
  show "pv__si_prefix 0 r b = (0, if b then ''  '' else '' '')"
    by (simp add: pv__si_prefix_def Let_def)
next
  assume a: "k \<le> 8 \<and> r ^ k \<le> v \<and> v < r ^ (k + 1)"
  have r1: "1 < r" using assms by auto
  have rk: "0 < r ^ k" using r1 by simp
  show "pv__si_prefix v r b = (v / r ^ k, si_unit b (8 + k))"
    using a by (intro pv__si_prefix_above [OF assms]) simp_all
  show "1 \<le> v / r ^ k" using a rk by (simp add: le_divide_eq)
  show "v / r ^ k < r" using a rk by (simp add: divide_less_eq ac_simps)
next
  assume a: "1 \<le> k \<and> k \<le> 8 \<and> 1 \<le> v * r ^ k \<and> v * r ^ k < r"
  then show "pv__si_prefix v r b = (v * r ^ k, si_unit b (8 - k))"
    by (intro pv__si_prefix_below [OF assms]) simp_all
next
  assume a: "r * 0.97 < v \<and> v < r"
  have "1 \<le> r * 0.97" using assms by auto
  then have "r ^ 0 \<le> v" "v < r ^ Suc 0" using a by simp_all
  from pv__si_prefix_above [OF assms _ this, of b]
  show "pv__si_prefix v r b = (v, if b then ''  '' else '' '')"
    by (simp add: si_unit_blank)
next
  assume "r ^ 9 \<le> v"
  then show "pv__si_prefix v r b = (v / r ^ 8, si_unit b 16)"
    by (rule pv__si_prefix_top [OF assms])
next
  assume "0 < v \<and> v * r ^ 8 < 1"
  then show "pv__si_prefix v r b = (v * r ^ 8, si_unit b 0)"
    by (intro pv__si_prefix_bottom [OF assms]) simp_all
qed

theorem pv__si_prefix_scaling_witness:
  "pv__si_prefix 0 1024 True = (0, ''  '')
   \<and> pv__si_prefix 1536 1024 True = (3 / 2, ''Ki'')
   \<and> pv__si_prefix (1 / 2) 1000 False = (500, ''m'')
   \<and> pv__si_prefix 980 1000 False = (980, '' '')
   \<and> pv__si_prefix (1000 ^ 9) 1000 False = (1000, ''Y'')
   \<and> pv__si_prefix (1 / 1000 ^ 9) 1000 False = (1 / 1000, ''y'')"
  using pv__si_prefix_scaling [of 1024 True 1 1536]
    pv__si_prefix_scaling [of 1000 False 1 "1 / 2"]
    pv__si_prefix_scaling [of 1000 False 0 980]
    pv__si_prefix_scaling [of 1000 False 0 "1000 ^ 9"]
    pv__si_prefix_scaling [of 1000 False 0 "1 / 1000 ^ 9"]
  by (simp add: si_unit_def pfx_000_def pfx_024_def)

text \<open>
  C5 as the specification states it fails: 980 with the ratio 1000 is divided to 0.98 by
  the first loop and multiplied back by the second, so the result 980 is not below
  \<open>1000 * 0.97\<close>.
\<close>

theorem pv__si_prefix_counterexample:
  "\<not> (1 \<le> fst (pv__si_prefix 980 1000 False)
       \<and> fst (pv__si_prefix 980 1000 False) < 1000 * 0.97)"
  by (simp add: pv__si_prefix_def pfx_000_def strchr_def si_up.simps c_byte_def NUL_def Let_def)

end
